theory Spec2Isabelle
  imports Main "HOL-Library.Sublist" "HOL-Library.Multiset"
begin

section \<open>The namespace rewriter scripts\<close>

text \<open>
  The repository holds two scripts, \<^verbatim>\<open>fix-namespaces.py\<close> and \<^verbatim>\<open>fix-ns.py\<close>. Both read
  every \<^verbatim>\<open>.cs\<close> file below a root directory, run three \<^verbatim>\<open>re.sub\<close> calls over its full
  text, and write the file back when the text changed.

  A Python \<^verbatim>\<open>str\<close> is modelled as a \<open>string\<close>: one \<open>char\<close> stands for one character of
  the decoded text. Nothing in the scripts counts characters or indexes into a string.
\<close>

subsection \<open>The fragment of \<^verbatim>\<open>re\<close> the scripts use\<close>

text \<open>
  \<^verbatim>\<open>re.sub(pattern, repl, string)\<close> compiles the pattern, expands the replacement template
  and replaces the leftmost non-overlapping matches, scanning from left to right. The
  patterns of the scripts are sequences of ordinary characters and of \<^verbatim>\<open>\.\<close>; the model
  covers sequences of ordinary characters, of a backslash followed by a character that is
  neither a letter nor a digit (which stands for that character), and of the unescaped dot
  (any character but a newline). On every other pattern \<open>re_compile\<close> is \<open>None\<close>: the
  model does not say what Python does there.
\<close>

datatype atom = Lit char | AnyChar

definition backslash :: char where
  "backslash = CHR 0x5C"

definition LF :: char where
  "LF = CHR 0x0A"

definition CR :: char where
  "CR = CHR 0x0D"

definition is_alnum :: "char \<Rightarrow> bool" where
  "is_alnum c =
     (let n = (of_char c :: nat)
      in (48 \<le> n \<and> n \<le> 57) \<or> (65 \<le> n \<and> n \<le> 90) \<or> (97 \<le> n \<and> n \<le> 122))"

definition special :: "char \<Rightarrow> bool" where
  "special c = (c \<in> set ''.^$*+?{}[]|()'' \<or> c = backslash)"

fun re_compile :: "string \<Rightarrow> atom list option" where
  "re_compile [] = Some []"
| "re_compile [c] =
     (if c = CHR ''.'' then Some [AnyChar]
      else if special c then None
      else Some [Lit c])"
| "re_compile (c # d # cs) =
     (if c = backslash then
        (if is_alnum d then None else map_option ((#) (Lit d)) (re_compile cs))
      else if c = CHR ''.'' then map_option ((#) AnyChar) (re_compile (d # cs))
      else if special c then None
      else map_option ((#) (Lit c)) (re_compile (d # cs)))"

fun atom_matches :: "atom \<Rightarrow> char \<Rightarrow> bool" where
  "atom_matches (Lit a) c = (a = c)"
| "atom_matches AnyChar c = (c \<noteq> LF)"

text \<open>Does the atom sequence match at the start of the string?\<close>

fun match_here :: "atom list \<Rightarrow> string \<Rightarrow> bool" where
  "match_here [] s = True"
| "match_here (a # as) [] = False"
| "match_here (a # as) (c # cs) = (atom_matches a c \<and> match_here as cs)"

text \<open>
  The scan of \<^verbatim>\<open>sub\<close>. A match of a sequence of \<open>n\<close> atoms is \<open>n\<close> characters long, so after
  a match the scan goes on \<open>n\<close> characters further; the empty pattern matches before every
  character and at the end.
\<close>

function sub_atoms :: "atom list \<Rightarrow> string \<Rightarrow> string \<Rightarrow> string" where
  "sub_atoms as r [] = (if as = [] then r else [])"
| "sub_atoms as r (c # cs) =
     (if as = [] then r @ c # sub_atoms as r cs
      else if match_here as (c # cs) then r @ sub_atoms as r (drop (length as) (c # cs))
      else c # sub_atoms as r cs)"
  by pat_completeness auto
termination
  by (relation "measure (\<lambda>(as, r, s). length s)") auto

text \<open>A replacement template without a backslash stands for itself.\<close>

definition expand_template :: "string \<Rightarrow> string option" where
  "expand_template repl = (if backslash \<in> set repl then None else Some repl)"

definition re_sub :: "string \<Rightarrow> string \<Rightarrow> string \<Rightarrow> string option" where
  "re_sub pattern repl s =
     (case re_compile pattern of
        None \<Rightarrow> None
      | Some as \<Rightarrow>
          (case expand_template repl of
             None \<Rightarrow> None
           | Some r \<Rightarrow> Some (sub_atoms as r s)))"

subsection \<open>The rule list\<close>

text \<open>
  \<^verbatim>\<open>replacements\<close> of \<^verbatim>\<open>fix-namespaces.py\<close>; the patterns are raw strings, so each
  \<^verbatim>\<open>\.\<close> is a backslash and a dot.
\<close>

definition replacements :: "(string \<times> string) list" where
  "replacements =
     [(''using Core'' @ backslash # ''.Libraries'' @ backslash # ''.Application'' @
         backslash # ''.Commands;'',
       ''using Core.LibrariesApplication.Commands;''),
      (''using Core'' @ backslash # ''.Libraries'' @ backslash # ''.Application'' @
         backslash # ''.Queries;'',
       ''using Core.LibrariesApplication.Queries;''),
      (''using Techleap'' @ backslash # ''.Core'' @ backslash # ''.Domain'' @
         backslash # ''.Exceptions;'',
       ''using Core.Libraries.Domain.Exceptions;'')]"

text \<open>
  The loop \<^verbatim>\<open>for pattern, replacement in replacements: content = re.sub(...)\<close> of
  \<^verbatim>\<open>fix-namespaces.py\<close>.
\<close>

fun apply_rules :: "string \<Rightarrow> (string \<times> string) list \<Rightarrow> string option" where
  "apply_rules content [] = Some content"
| "apply_rules content ((pattern, replacement) # rest) =
     (case re_sub pattern replacement content of
        None \<Rightarrow> None
      | Some content' \<Rightarrow> apply_rules content' rest)"

text \<open>The three assignments to \<^verbatim>\<open>content\<close> in \<^verbatim>\<open>fix_file\<close> of \<^verbatim>\<open>fix-ns.py\<close>.\<close>

definition fix_ns_replacements :: "string \<Rightarrow> string option" where
  "fix_ns_replacements content0 =
     (case re_sub (''using Core'' @ backslash # ''.Libraries'' @ backslash # ''.Application'' @
                     backslash # ''.Commands;'')
                  ''using Core.LibrariesApplication.Commands;'' content0 of
        None \<Rightarrow> None
      | Some content1 \<Rightarrow>
     (case re_sub (''using Core'' @ backslash # ''.Libraries'' @ backslash # ''.Application'' @
                     backslash # ''.Queries;'')
                  ''using Core.LibrariesApplication.Queries;'' content1 of
        None \<Rightarrow> None
      | Some content2 \<Rightarrow>
          re_sub (''using Techleap'' @ backslash # ''.Core'' @ backslash # ''.Domain'' @
                     backslash # ''.Exceptions;'')
                  ''using Core.Libraries.Domain.Exceptions;'' content2))"

subsection \<open>Plain substitution\<close>

text \<open>
  \<^verbatim>\<open>s.replace(old, new)\<close> of Python: every non-overlapping occurrence of \<open>old\<close>, from the
  left, becomes \<open>new\<close>; an empty \<open>old\<close> stands before every character and at the end.
\<close>

function str_replace :: "string \<Rightarrow> string \<Rightarrow> string \<Rightarrow> string" where
  "str_replace [] old new = (if old = [] then new else [])"
| "str_replace (c # cs) old new =
     (if old = [] then new @ c # str_replace cs old new
      else if prefix old (c # cs) then new @ str_replace (drop (length old) (c # cs)) old new
      else c # str_replace cs old new)"
  by pat_completeness auto
termination
  by (relation "measure (\<lambda>(s, old, new). length s)") auto

text \<open>The literal strings the three patterns stand for.\<close>

definition old1 :: string where
  "old1 = ''using Core.Libraries.Application.Commands;''"

definition old2 :: string where
  "old2 = ''using Core.Libraries.Application.Queries;''"

definition old3 :: string where
  "old3 = ''using Techleap.Core.Domain.Exceptions;''"

definition new1 :: string where
  "new1 = ''using Core.LibrariesApplication.Commands;''"

definition new2 :: string where
  "new2 = ''using Core.LibrariesApplication.Queries;''"

definition new3 :: string where
  "new3 = ''using Core.Libraries.Domain.Exceptions;''"

text \<open>The three patterns as the scripts write them.\<close>

definition pattern1 :: string where
  "pattern1 = ''using Core'' @ backslash # ''.Libraries'' @ backslash # ''.Application'' @
         backslash # ''.Commands;''"

definition pattern2 :: string where
  "pattern2 = ''using Core'' @ backslash # ''.Libraries'' @ backslash # ''.Application'' @
         backslash # ''.Queries;''"

definition pattern3 :: string where
  "pattern3 = ''using Techleap'' @ backslash # ''.Core'' @ backslash # ''.Domain'' @
         backslash # ''.Exceptions;''"

definition rewrite :: "string \<Rightarrow> string" where
  "rewrite s = str_replace (str_replace (str_replace s old1 new1) old2 new2) old3 new3"


subsection \<open>Text files\<close>

text \<open>
  What \<^verbatim>\<open>open(path, 'r', encoding='utf-8')\<close> followed by \<^verbatim>\<open>read()\<close> does with a file is its
  \<open>payload\<close>: the exception raised (an \<^verbatim>\<open>OSError\<close> by \<^verbatim>\<open>open\<close>, a
  \<^verbatim>\<open>UnicodeDecodeError\<close> by \<^verbatim>\<open>read\<close>), or the decoded text as it stands on disk. A valid
  UTF-8 file and its decoded text determine each other, so two payloads are equal exactly
  when the bytes are. \<open>write_error\<close> is the exception \<^verbatim>\<open>open(path, 'w')\<close> raises, if any;
  a failure in the middle of \<^verbatim>\<open>write\<close> is not modelled. The string an exception carries is
  its \<^verbatim>\<open>str(e)\<close>.
\<close>

datatype exn = OSError string | UnicodeDecodeError string | ValueError string

fun str_exn :: "exn \<Rightarrow> string" where
  "str_exn (OSError m) = m"
| "str_exn (UnicodeDecodeError m) = m"
| "str_exn (ValueError m) = m"

record file_obj =
  payload :: "exn + string"
  write_error :: "exn option"

record world =
  disk :: "string \<Rightarrow> file_obj"
  os_linesep :: string
  stdout :: "string list"
  stderr :: "string list"

text \<open>
  Text mode with the default \<^verbatim>\<open>newline=None\<close>: on input \<^verbatim>\<open>\r\n\<close> and a lone \<^verbatim>\<open>\r\<close>
  become \<^verbatim>\<open>\n\<close>; on output every \<^verbatim>\<open>\n\<close> becomes \<^verbatim>\<open>os.linesep\<close>.
\<close>

fun universal_newlines :: "string \<Rightarrow> string" where
  "universal_newlines [] = []"
| "universal_newlines [c] = [if c = CR then LF else c]"
| "universal_newlines (c # d # s) =
     (if c = CR \<and> d = LF then LF # universal_newlines s
      else if c = CR then LF # universal_newlines (d # s)
      else c # universal_newlines (d # s))"

definition newline_out :: "string \<Rightarrow> string \<Rightarrow> string" where
  "newline_out sep s = concat (map (\<lambda>c. if c = LF then sep else [c]) s)"

definition read_text :: "world \<Rightarrow> string \<Rightarrow> exn + string" where
  "read_text w path =
     (case payload (disk w path) of
        Inl e \<Rightarrow> Inl e
      | Inr raw \<Rightarrow> Inr (universal_newlines raw))"

definition write_text :: "world \<Rightarrow> string \<Rightarrow> string \<Rightarrow> exn + world" where
  "write_text w path s =
     (case write_error (disk w path) of
        Some e \<Rightarrow> Inl e
      | None \<Rightarrow>
          Inr (w\<lparr>disk := (disk w)
                 (path := (disk w path)\<lparr>payload := Inr (newline_out (os_linesep w) s)\<rparr>)\<rparr>))"

definition print_out :: "string \<Rightarrow> world \<Rightarrow> world" where
  "print_out line w = w\<lparr>stdout := stdout w @ [line]\<rparr>"

definition print_err :: "string \<Rightarrow> world \<Rightarrow> world" where
  "print_err line w = w\<lparr>stderr := stderr w @ [line]\<rparr>"

text \<open>The decimal digits of \<^verbatim>\<open>{fixed}\<close> and \<^verbatim>\<open>{len(cs_files)}\<close> in the f-strings.\<close>

definition digit :: "nat \<Rightarrow> char" where
  "digit d = char_of (48 + d)"

function str_nat :: "nat \<Rightarrow> string" where
  "str_nat n = (if n < 10 then [digit n] else str_nat (n div 10) @ [digit (n mod 10)])"
  by pat_completeness auto
termination
  by (relation "measure id") auto

declare str_nat.simps [simp del]

subsection \<open>The directory tree\<close>

text \<open>
  A directory lists its entries in the order of \<^verbatim>\<open>scandir\<close>; its flag says whether it can
  be listed. Symbolic links are not modelled. Writing to a file that exists changes no
  listing, so the tree is the same before and after a run.
\<close>

datatype node = File | Dir bool "(string \<times> node) list"

fun is_dir :: "node \<Rightarrow> bool" where
  "is_dir File = False"
| "is_dir (Dir ok es) = True"

text \<open>\<^verbatim>\<open>os.path.join(a, b)\<close> of \<^verbatim>\<open>posixpath\<close>.\<close>

definition path_join :: "string \<Rightarrow> string \<Rightarrow> string" where
  "path_join a b =
     (if prefix ''/'' b then b
      else if a = [] \<or> suffix ''/'' a then a @ b
      else a @ ''/'' @ b)"

text \<open>
  \<^verbatim>\<open>os.walk(top)\<close>, top-down, with the default \<^verbatim>\<open>onerror=None\<close>: a directory that cannot
  be listed (or a \<open>top\<close> that is no directory) is passed over without an exception.
\<close>

fun os_walk :: "string \<Rightarrow> node \<Rightarrow> (string \<times> string list \<times> string list) list"
  and os_walk_dirs :: "string \<Rightarrow> (string \<times> node) list \<Rightarrow> (string \<times> string list \<times> string list) list"
where
  "os_walk top_dir File = []"
| "os_walk top_dir (Dir ok es) =
     (if \<not> ok then []
      else (top_dir, map fst (filter (\<lambda>e. is_dir (snd e)) es),
                 map fst (filter (\<lambda>e. \<not> is_dir (snd e)) es))
           # os_walk_dirs top_dir es)"
| "os_walk_dirs top_dir [] = []"
| "os_walk_dirs top_dir (e # es) =
     (if is_dir (snd e) then os_walk (path_join top_dir (fst e)) (snd e) else [])
     @ os_walk_dirs top_dir es"

text \<open>The root of a walk may be missing.\<close>

definition walk :: "string \<Rightarrow> node option \<Rightarrow> (string \<times> string list \<times> string list) list" where
  "walk top_dir root = (case root of None \<Rightarrow> [] | Some n \<Rightarrow> os_walk top_dir n)"

text \<open>
  A \<^verbatim>\<open>Path\<close> is the list of its parts. \<^verbatim>\<open>str\<close> of a path joins them with slashes, after
  a leading root part \<^verbatim>\<open>/\<close> without one; the path without parts is \<^verbatim>\<open>.\<close>.
\<close>

fun join_parts :: "string list \<Rightarrow> string" where
  "join_parts [] = []"
| "join_parts [p] = p"
| "join_parts (p # q # ps) = p @ ''/'' @ join_parts (q # ps)"

definition str_path :: "string list \<Rightarrow> string" where
  "str_path ps =
     (case ps of
        [] \<Rightarrow> ''.''
      | p # qs \<Rightarrow> if p = ''/'' then ''/'' @ join_parts qs else join_parts ps)"

text \<open>
  \<^verbatim>\<open>path.relative_to(base)\<close> raises \<^verbatim>\<open>ValueError\<close> unless the parts of \<open>base\<close> begin
  those of \<open>path\<close>; the message is shortened here.
\<close>

definition relative_to :: "string list \<Rightarrow> string list \<Rightarrow> exn + string list" where
  "relative_to path base =
     (if prefix base path then Inr (drop (length base) path)
      else Inl (ValueError (str_path path @ '' is not in the subpath of '' @ str_path base)))"

text \<open>
  \<^verbatim>\<open>base.rglob('*.cs')\<close>: every directory below \<open>base\<close>, the parent before its
  subdirectories, yields its entries whose name ends in \<^verbatim>\<open>.cs\<close>, directories among them.
  A directory that cannot be listed yields nothing.
\<close>

fun rglob_cs :: "string list \<Rightarrow> node \<Rightarrow> string list list"
  and rglob_cs_dirs :: "string list \<Rightarrow> (string \<times> node) list \<Rightarrow> string list list"
where
  "rglob_cs base File = []"
| "rglob_cs base (Dir ok es) =
     (if \<not> ok then []
      else map (\<lambda>e. base @ [fst e]) (filter (\<lambda>e. suffix ''.cs'' (fst e)) es)
           @ rglob_cs_dirs base es)"
| "rglob_cs_dirs base [] = []"
| "rglob_cs_dirs base (e # es) =
     (if is_dir (snd e) then rglob_cs (base @ [fst e]) (snd e) else [])
     @ rglob_cs_dirs base es"

definition rglob :: "string list \<Rightarrow> node option \<Rightarrow> string list list" where
  "rglob base root = (case root of None \<Rightarrow> [] | Some n \<Rightarrow> rglob_cs base n)"

subsection \<open>\<^verbatim>\<open>fix-ns.py\<close>\<close>

text \<open>
  \<open>fix_file\<close> returns the flag and the world it leaves. \<open>None\<close> stands for a pattern
  outside the fragment of \<open>re_compile\<close>; the lemma \<open>fix_file_uniform\<close> below shows that
  it does not occur.
\<close>

definition error_line :: "string \<Rightarrow> exn \<Rightarrow> string" where
  "error_line path e = ''Error processing '' @ path @ '': '' @ str_exn e"

definition fix_file :: "string \<Rightarrow> world \<Rightarrow> (bool \<times> world) option" where
  "fix_file filepath w =
     (case read_text w filepath of
        Inl e \<Rightarrow> Some (False, print_err (error_line filepath e) w)
      | Inr original \<Rightarrow>
          (case fix_ns_replacements original of
             None \<Rightarrow> None
           | Some content \<Rightarrow>
               if content \<noteq> original then
                 (case write_text w filepath content of
                    Inl e \<Rightarrow> Some (False, print_err (error_line filepath e) w)
                  | Inr w' \<Rightarrow> Some (True, w'))
               else Some (False, w)))"

text \<open>The inner loop \<^verbatim>\<open>for file in files\<close> and the outer loop over the walk.\<close>

fun files_loop :: "string \<Rightarrow> string list \<Rightarrow> nat \<times> world \<Rightarrow> (nat \<times> world) option" where
  "files_loop root [] (fixed, w) = Some (fixed, w)"
| "files_loop root (file # files) (fixed, w) =
     (if suffix ''.cs'' file then
        (case fix_file (path_join root file) w of
           None \<Rightarrow> None
         | Some (changed, w') \<Rightarrow>
             files_loop root files (if changed then fixed + 1 else fixed, w'))
      else files_loop root files (fixed, w))"

fun walk_loop ::
  "(string \<times> string list \<times> string list) list \<Rightarrow> nat \<times> world \<Rightarrow> (nat \<times> world) option" where
  "walk_loop [] st = Some st"
| "walk_loop ((root, dirs, files) # rest) st =
     (case files_loop root files st of
        None \<Rightarrow> None
      | Some st' \<Rightarrow> walk_loop rest st')"

text \<open>
  The script: the result is the exit status and the world left. The script has no
  \<^verbatim>\<open>sys.exit\<close> and every exception of the model is caught in \<open>fix_file\<close>, so the
  interpreter ends with status 0.
\<close>

definition main_ns :: "node option \<Rightarrow> world \<Rightarrow> (nat \<times> world) option" where
  "main_ns cwd w =
     (case walk_loop (walk ''.'' cwd) (0, w) of
        None \<Rightarrow> None
      | Some (fixed, w') \<Rightarrow> Some (0, print_out (''Fixed '' @ str_nat fixed @ '' files'') w'))"

subsection \<open>\<^verbatim>\<open>fix-namespaces.py\<close>\<close>

text \<open>The body of \<^verbatim>\<open>for cs_file in cs_files\<close>.\<close>

definition process_file :: "string list \<Rightarrow> string list \<Rightarrow> world \<Rightarrow> world option" where
  "process_file script_dir cs_file w =
     (case read_text w (str_path cs_file) of
        Inl e \<Rightarrow> Some (print_out (error_line (str_path cs_file) e) w)
      | Inr original_content \<Rightarrow>
          (case apply_rules original_content replacements of
             None \<Rightarrow> None
           | Some content \<Rightarrow>
               if content \<noteq> original_content then
                 (case write_text w (str_path cs_file) content of
                    Inl e \<Rightarrow> Some (print_out (error_line (str_path cs_file) e) w)
                  | Inr w' \<Rightarrow>
                      (case relative_to cs_file script_dir of
                         Inl e \<Rightarrow> Some (print_out (error_line (str_path cs_file) e) w')
                       | Inr rel \<Rightarrow> Some (print_out (''Fixed: '' @ str_path rel) w')))
               else Some w))"

fun cs_files_loop :: "string list \<Rightarrow> string list list \<Rightarrow> world \<Rightarrow> world option" where
  "cs_files_loop script_dir [] w = Some w"
| "cs_files_loop script_dir (cs_file # rest) w =
     (case process_file script_dir cs_file w of
        None \<Rightarrow> None
      | Some w' \<Rightarrow> cs_files_loop script_dir rest w')"

definition main_namespaces :: "string list \<Rightarrow> node option \<Rightarrow> world \<Rightarrow> (nat \<times> world) option" where
  "main_namespaces script_dir root w =
     (let cs_files = rglob script_dir root;
          w1 = print_out (''Found '' @ str_nat (length cs_files) @ '' C# files to process...'') w
      in case cs_files_loop script_dir cs_files w1 of
           None \<Rightarrow> None
         | Some w2 \<Rightarrow> Some (0, print_out ''Done!'' w2))"


section \<open>Notions for the properties\<close>

subsection \<open>Substitution\<close>

text \<open>One turn of the loop over the rules, on a buffer that may already be undefined.\<close>

definition rule_step :: "string \<times> string \<Rightarrow> string option \<Rightarrow> string option" where
  "rule_step rule buf = Option.bind buf (re_sub (fst rule) (snd rule))"

text \<open>
  What it is to replace all non-overlapping matches from the left: either no match starts
  anywhere in the text, or the text is \<open>u @ m @ rest\<close> where \<open>m\<close> is a match, no match starts
  within \<open>u\<close>, and the same holds of \<open>rest\<close>.
\<close>

inductive replaced_all :: "atom list \<Rightarrow> string \<Rightarrow> string \<Rightarrow> string \<Rightarrow> bool"
  for as :: "atom list" and r :: string
where
  no_match: "(\<forall>k\<le>length s. \<not> match_here as (drop k s)) \<Longrightarrow> replaced_all as r s s"
| at_match: "length m = length as \<Longrightarrow> match_here as m \<Longrightarrow>
     (\<forall>k<length u. \<not> match_here as (drop k (u @ m @ rest))) \<Longrightarrow>
     replaced_all as r rest out \<Longrightarrow>
     replaced_all as r (u @ m @ rest) (u @ r @ out)"

text \<open>
  Two strings are compatible when one begins the other. \<open>overlap_free q r\<close>: wherever \<open>r\<close>
  stands in a text, no occurrence of \<open>q\<close> shares a character with it. \<open>unbordered q\<close>: two
  occurrences of \<open>q\<close> share no character.
\<close>

definition compat :: "string \<Rightarrow> string \<Rightarrow> bool" where
  "compat a b = (prefix a b \<or> prefix b a)"

definition overlap_free :: "string \<Rightarrow> string \<Rightarrow> bool" where
  "overlap_free q r =
     (list_all (\<lambda>j. \<not> compat (drop j q) r) [1..<length q] \<and>
      list_all (\<lambda>j. \<not> compat (drop j r) q) [0..<length r])"

definition unbordered :: "string \<Rightarrow> bool" where
  "unbordered q = list_all (\<lambda>j. \<not> compat (drop j q) q) [1..<length q]"

text \<open>Two substitutions in one scan.\<close>

function sub2 :: "string \<Rightarrow> string \<Rightarrow> string \<Rightarrow> string \<Rightarrow> string \<Rightarrow> string" where
  "sub2 [] oa na ob nb = []"
| "sub2 (c # cs) oa na ob nb =
     (if oa \<noteq> [] \<and> prefix oa (c # cs) then na @ sub2 (drop (length oa) (c # cs)) oa na ob nb
      else if ob \<noteq> [] \<and> prefix ob (c # cs) then nb @ sub2 (drop (length ob) (c # cs)) oa na ob nb
      else c # sub2 cs oa na ob nb)"
  by pat_completeness auto
termination
  by (relation "measure (\<lambda>(s, oa, na, ob, nb). length s)") auto


text \<open>\<^verbatim>\<open>s.split('\n')\<close>: the lines of a text.\<close>

fun split_lines :: "string \<Rightarrow> string list" where
  "split_lines [] = [[]]"
| "split_lines (c # cs) =
     (if c = LF then [] # split_lines cs
      else (case split_lines cs of
              [] \<Rightarrow> [[c]]
            | l # ls \<Rightarrow> (c # l) # ls))"

subsection \<open>Files and runs\<close>

text \<open>Does the pattern match somewhere in the text?\<close>

definition matches_in :: "string \<Rightarrow> string \<Rightarrow> bool" where
  "matches_in pattern s =
     (case re_compile pattern of
        None \<Rightarrow> False
      | Some as \<Rightarrow> list_ex (\<lambda>k. match_here as (drop k s)) [0..<Suc (length s)])"

text \<open>
  What processing does with the file at a path: the text read differs from its rewriting and
  the file can be written (\<open>Changed\<close>, with the new text), the text read is its own
  rewriting (\<open>Unchanged\<close>), or reading or opening for writing raises (\<open>Failed\<close>).
\<close>

datatype outcome = Changed string | Unchanged | Failed exn

definition outcome :: "world \<Rightarrow> string \<Rightarrow> outcome" where
  "outcome w path =
     (case read_text w path of
        Inl e \<Rightarrow> Failed e
      | Inr content \<Rightarrow>
          if rewrite content = content then Unchanged
          else (case write_error (disk w path) of
                  Some e \<Rightarrow> Failed e
                | None \<Rightarrow> Changed (rewrite content)))"

fun is_changed :: "outcome \<Rightarrow> bool" where
  "is_changed (Changed u) = True"
| "is_changed Unchanged = False"
| "is_changed (Failed e) = False"

fun is_failed :: "outcome \<Rightarrow> bool" where
  "is_failed (Changed u) = False"
| "is_failed Unchanged = False"
| "is_failed (Failed e) = True"

text \<open>The file at a path after it was processed.\<close>

definition file_after :: "world \<Rightarrow> string \<Rightarrow> file_obj" where
  "file_after w path =
     (case outcome w path of
        Changed u \<Rightarrow> (disk w path)\<lparr>payload := Inr (newline_out (os_linesep w) u)\<rparr>
      | Unchanged \<Rightarrow> disk w path
      | Failed e \<Rightarrow> disk w path)"

definition disk_after :: "world \<Rightarrow> string list \<Rightarrow> string \<Rightarrow> file_obj" where
  "disk_after w paths = (\<lambda>p. if p \<in> set paths then file_after w p else disk w p)"

text \<open>The line a failed file leaves on the error channel.\<close>

definition failure_lines :: "world \<Rightarrow> string \<Rightarrow> string list" where
  "failure_lines w path =
     (case outcome w path of
        Failed e \<Rightarrow> [error_line path e]
      | Changed u \<Rightarrow> []
      | Unchanged \<Rightarrow> [])"

text \<open>The paths \<^verbatim>\<open>fix-ns.py\<close> hands to \<open>fix_file\<close>, in the order of the walk.\<close>

definition cs_paths :: "(string \<times> string list \<times> string list) list \<Rightarrow> string list" where
  "cs_paths triples =
     concat (map (\<lambda>(root, dirs, files). map (path_join root) (filter (suffix ''.cs'') files))
                 triples)"

text \<open>The two loops of \<^verbatim>\<open>fix-ns.py\<close> as one loop over these paths.\<close>

fun path_loop :: "string list \<Rightarrow> nat \<times> world \<Rightarrow> (nat \<times> world) option" where
  "path_loop [] st = Some st"
| "path_loop (p # ps) (fixed, w) =
     (case fix_file p w of
        None \<Rightarrow> None
      | Some (changed, w') \<Rightarrow> path_loop ps (if changed then fixed + 1 else fixed, w'))"

text \<open>The line \<^verbatim>\<open>fix-namespaces.py\<close> prints for a file, if any.\<close>

definition report_lines :: "string list \<Rightarrow> world \<Rightarrow> string list \<Rightarrow> string list" where
  "report_lines script_dir w cs_file =
     (case outcome w (str_path cs_file) of
        Changed u \<Rightarrow> [''Fixed: '' @ str_path (drop (length script_dir) cs_file)]
      | Unchanged \<Rightarrow> []
      | Failed e \<Rightarrow> [error_line (str_path cs_file) e])"

text \<open>A root that is missing, is no directory, or cannot be listed.\<close>

fun unavailable :: "node option \<Rightarrow> bool" where
  "unavailable None = True"
| "unavailable (Some File) = True"
| "unavailable (Some (Dir ok es)) = (\<not> ok)"

text \<open>Reading the file at a path gives a text whose line \<open>i\<close> is \<open>l\<close>.\<close>

definition line_reads :: "world \<Rightarrow> string \<Rightarrow> nat \<Rightarrow> string \<Rightarrow> bool" where
  "line_reads w path i l =
     (case read_text w path of
        Inl e \<Rightarrow> False
      | Inr content \<Rightarrow> i < length (split_lines content) \<and> split_lines content ! i = l)"

text \<open>
  Sample inputs: a world where every path holds a writable file of one payload, nothing
  printed yet, on a system whose line separator is \<^verbatim>\<open>\n\<close>; a text of three lines with a
  given second line; and a root directory with the single file \<^verbatim>\<open>a.cs\<close>.
\<close>

definition sample_world :: "exn + string \<Rightarrow> world" where
  "sample_world p =
     \<lparr>disk = (\<lambda>path. \<lparr>payload = p, write_error = None\<rparr>),
      os_linesep = [LF], stdout = [], stderr = []\<rparr>"

definition sample_text :: "string \<Rightarrow> string" where
  "sample_text l = ''// header'' @ LF # l @ LF # ''class A {}''"

definition sample_root :: "node option" where
  "sample_root = Some (Dir True [(''a.cs'', File)])"

text \<open>
  A tree as a file system lists it: in every directory each name stands once, and a name
  is not empty and holds no slash.
\<close>

fun wf_node :: "node \<Rightarrow> bool"
  and wf_entries :: "(string \<times> node) list \<Rightarrow> bool"
where
  "wf_node File = True"
| "wf_node (Dir ok es) = (distinct (map fst es) \<and> wf_entries es)"
| "wf_entries [] = True"
| "wf_entries (e # es) =
     (fst e \<noteq> [] \<and> CHR ''/'' \<notin> set (fst e) \<and> wf_node (snd e) \<and> wf_entries es)"

fun wf_root :: "node option \<Rightarrow> bool" where
  "wf_root None = True"
| "wf_root (Some n) = wf_node n"

text \<open>
  The start of a walk that \<^verbatim>\<open>os.path.join\<close> extends by a slash and a name, and a name as a
  directory holds it.
\<close>

definition good_top :: "string \<Rightarrow> bool" where
  "good_top t = (t \<noteq> [] \<and> last t \<noteq> CHR ''/'')"

definition good_name :: "string \<Rightarrow> bool" where
  "good_name n = (n \<noteq> [] \<and> CHR ''/'' \<notin> set n)"

section \<open>Substitution of literal strings\<close>

lemma old1_clear_of_new1: "overlap_free old1 new1" by code_simp
lemma old1_clear_of_new2: "overlap_free old1 new2" by code_simp
lemma old1_clear_of_new3: "overlap_free old1 new3" by code_simp
lemma old2_clear_of_new1: "overlap_free old2 new1" by code_simp
lemma old2_clear_of_new2: "overlap_free old2 new2" by code_simp
lemma old2_clear_of_new3: "overlap_free old2 new3" by code_simp
lemma old3_clear_of_new1: "overlap_free old3 new1" by code_simp
lemma old3_clear_of_new2: "overlap_free old3 new2" by code_simp
lemma old3_clear_of_new3: "overlap_free old3 new3" by code_simp
lemma old1_clear_of_old2: "overlap_free old1 old2" by code_simp
lemma old1_clear_of_old3: "overlap_free old1 old3" by code_simp
lemma old2_clear_of_old3: "overlap_free old2 old3" by code_simp
lemma old2_clear_of_old1: "overlap_free old2 old1" by code_simp
lemma old3_clear_of_old1: "overlap_free old3 old1" by code_simp
lemma old3_clear_of_old2: "overlap_free old3 old2" by code_simp
lemma old1_unbordered: "unbordered old1" by code_simp
lemma old2_unbordered: "unbordered old2" by code_simp
lemma old3_unbordered: "unbordered old3" by code_simp

lemma prefix_app_compat: "prefix q (a @ v) \<Longrightarrow> compat q a"
  by (auto simp: compat_def prefix_append)

lemma occ_in_context:
  assumes of: "overlap_free q r"
    and pre: "prefix q (drop k (w @ r @ v))"
    and k: "k < length w + length r"
  shows "k + length q \<le> length w"
proof (cases "k < length w")
  case True
  show ?thesis
  proof (rule ccontr)
    assume "\<not> k + length q \<le> length w"
    then have long: "length w - k < length q" using True by arith
    define j where "j = length w - k"
    have j: "1 \<le> j" "j < length q" using True long by (auto simp: j_def)
    from pre True have "prefix q (drop k w @ r @ v)" by simp
    then obtain us where q: "q = drop k w @ us" and us: "prefix us (r @ v)"
      using long by (auto simp: prefix_append dest: prefix_length_le)
    have "us = drop j q" by (simp add: q j_def)
    with us have "compat (drop j q) r" by (simp add: prefix_app_compat)
    moreover from of j have "\<not> compat (drop j q) r"
      by (auto simp: overlap_free_def list_all_iff)
    ultimately show False by simp
  qed
next
  case False
  define j where "j = k - length w"
  have j: "j < length r" using False k by (auto simp: j_def)
  from pre False k have "prefix q (drop j r @ v)" by (simp add: j_def)
  then have "compat q (drop j r)" by (rule prefix_app_compat)
  then have "compat (drop j r) q" by (auto simp: compat_def)
  moreover from of j have "\<not> compat (drop j r) q"
    by (auto simp: overlap_free_def list_all_iff)
  ultimately show ?thesis by simp
qed

lemma str_replace_at_match:
  "old \<noteq> [] \<Longrightarrow> str_replace (old @ y) old new = new @ str_replace y old new"
  by (cases old) auto

lemma str_replace_no_match:
  "old \<noteq> [] \<Longrightarrow> \<not> prefix old (c # cs) \<Longrightarrow> str_replace (c # cs) old new = c # str_replace cs old new"
  by simp

text \<open>No occurrence that starts in u reaches beyond u.\<close>

lemma str_replace_split:
  assumes "old \<noteq> []"
    and "\<forall>k<length u. prefix old (drop k (u @ x)) \<longrightarrow> k + length old \<le> length u"
  shows "str_replace (u @ x) old new = str_replace u old new @ str_replace x old new"
  using assms
proof (induction u old new rule: str_replace.induct)
  case (1 old new)
  then show ?case by simp
next
  case (2 c cs old new)
  show ?case
  proof (cases "prefix old ((c # cs) @ x)")
    case True
    with "2.prems" have len: "length old \<le> length (c # cs)" by fastforce
    with True have pre: "prefix old (c # cs)"
      by (metis prefix_append prefix_length_le append_eq_append_conv_if append_Nil2 prefix_order.order_refl prefix_def append.assoc le_antisym length_append le_add1)
    then obtain rest where rest: "c # cs = old @ rest" by (auto simp: prefix_def)
    have d1: "drop (length old) (c # cs) = rest" using rest by (metis append_eq_conv_conj)
    have d2: "drop (length old) ((c # cs) @ x) = rest @ x" using rest by (metis append.assoc append_eq_conv_conj)
    have hyp: "\<forall>k<length rest. prefix old (drop k (rest @ x)) \<longrightarrow> k + length old \<le> length rest"
    proof (intro allI impI)
      fix k assume k: "k < length rest" and p: "prefix old (drop k (rest @ x))"
      have "drop (k + length old) ((c # cs) @ x) = drop k (rest @ x)"
        using d2 by (metis add.commute drop_drop)
      with p have "prefix old (drop (k + length old) ((c # cs) @ x))" by simp
      moreover have "k + length old < length (c # cs)" using k rest
        by (metis add.commute length_append nat_add_left_cancel_less)
      ultimately have "k + length old + length old \<le> length (c # cs)" using "2.prems"(2) by blast
      then show "k + length old \<le> length rest" using rest
        by (metis add.commute add_le_cancel_left length_append)
    qed
    have IH: "str_replace (rest @ x) old new = str_replace rest old new @ str_replace x old new"
      using "2.IH"(2)[OF "2.prems"(1) pre] "2.prems"(1) hyp d1 by simp
    have "str_replace ((c # cs) @ x) old new = new @ str_replace (rest @ x) old new"
      using rest "2.prems"(1) by (metis append.assoc str_replace_at_match)
    moreover have "str_replace (c # cs) old new = new @ str_replace rest old new"
      using rest "2.prems"(1) by (metis str_replace_at_match)
    ultimately show ?thesis using IH by simp
  next
    case False
    then have np: "\<not> prefix old (c # cs)" using prefix_prefix by fastforce
    have hyp: "\<forall>k<length cs. prefix old (drop k (cs @ x)) \<longrightarrow> k + length old \<le> length cs"
    proof (intro allI impI)
      fix k assume k: "k < length cs" and p: "prefix old (drop k (cs @ x))"
      then have "prefix old (drop (Suc k) ((c # cs) @ x))" by simp
      moreover have "Suc k < length (c # cs)" using k by simp
      ultimately have "Suc k + length old \<le> length (c # cs)" using "2.prems"(2) by blast
      then show "k + length old \<le> length cs" by simp
    qed
    have IH: "str_replace (cs @ x) old new = str_replace cs old new @ str_replace x old new"
      using "2.IH"(3)[OF "2.prems"(1) np "2.prems"(1)] hyp by simp
    show ?thesis using False np "2.prems"(1) IH by simp
  qed
qed


lemma prefix_append_short:
  "length q \<le> length a \<Longrightarrow> prefix q (a @ x) = prefix q a"
proof
  assume len: "length q \<le> length a" and p: "prefix q (a @ x)"
  then show "prefix q a"
  proof (cases "prefix q a")
    case False
    with p obtain us where "q = a @ us" "prefix us x" by (auto simp: prefix_append)
    with len have "us = []" by simp
    with \<open>q = a @ us\<close> show ?thesis by simp
  qed simp
next
  assume "prefix q a"
  then show "prefix q (a @ x)" by (rule prefix_prefix)
qed

lemma prefix_drop_append:
  "k + length q \<le> length w \<Longrightarrow> prefix q (drop k (w @ x)) = prefix q (drop k w)"
  by (simp add: prefix_append_short)

lemma prefix_drop_sublist: "prefix q (drop k s) \<Longrightarrow> sublist q s"
  by (metis append_take_drop_id prefix_def sublist_appendI)

lemma sublist_prefix_drop:
  assumes "sublist q s"
  shows "\<exists>k. k + length q \<le> length s \<and> prefix q (drop k s)"
proof -
  from assms obtain ps ss where "s = ps @ q @ ss" by (auto simp: sublist_def)
  then have "length ps + length q \<le> length s \<and> prefix q (drop (length ps) s)" by simp
  then show ?thesis by blast
qed

lemma str_replace_id:
  "old \<noteq> [] \<Longrightarrow> \<not> sublist old s \<Longrightarrow> str_replace s old new = s"
proof (induction s)
  case Nil
  then show ?case by simp
next
  case (Cons c cs)
  from Cons.prems have "\<not> prefix old (c # cs)" by (auto dest: prefix_imp_sublist)
  moreover from Cons.prems have "\<not> sublist old cs" by (auto simp: sublist_Cons_right)
  ultimately show ?case using Cons by simp
qed

lemma str_replace_skip:
  assumes "old \<noteq> []" and "\<forall>k<length w. \<not> prefix old (drop k (w @ x))"
  shows "str_replace (w @ x) old new = w @ str_replace x old new"
proof -
  have "\<not> sublist old w"
  proof
    assume "sublist old w"
    then obtain k where k: "k + length old \<le> length w" "prefix old (drop k w)"
      using sublist_prefix_drop by blast
    with assms(1) have "k < length w" by (cases old) auto
    moreover from k have "prefix old (drop k (w @ x))" by (simp add: prefix_drop_append)
    ultimately show False using assms(2) by blast
  qed
  then have "str_replace w old new = w" using assms(1) by (rule str_replace_id[rotated])
  moreover have "str_replace (w @ x) old new = str_replace w old new @ str_replace x old new"
    using assms by (intro str_replace_split) auto
  ultimately show ?thesis by simp
qed

text \<open>A substitution whose replacement cannot overlap q brings no occurrence of q.\<close>

lemma no_occurrence_gen:
  assumes "old \<noteq> []" and "overlap_free q new"
    and "q = old \<or> \<not> sublist q s"
    and "\<forall>k<length w. \<not> prefix q (drop k (w @ s))"
  shows "\<not> sublist q (w @ str_replace s old new)"
  using assms
proof (induction s old new arbitrary: w rule: str_replace.induct)
  case (1 old new)
  have qne: "q \<noteq> []" using "1.prems" by auto
  show ?case
  proof
    assume "sublist q (w @ str_replace [] old new)"
    then have "sublist q w" using "1.prems"(1) by simp
    then obtain k where k: "k + length q \<le> length w" "prefix q (drop k w)"
      using sublist_prefix_drop by blast
    with qne have "k < length w" by (cases q) auto
    with k "1.prems"(4) show False by simp
  qed
next
  case (2 c cs old new)
  show ?case
  proof (cases "prefix old (c # cs)")
    case True
    then obtain rest where rest: "c # cs = old @ rest" by (auto simp: prefix_def)
    have d1: "drop (length old) (c # cs) = rest" using rest by (metis append_eq_conv_conj)
    have A: "q = old \<or> \<not> sublist q rest"
      using "2.prems"(3) rest by (auto simp: sublist_append)
    have inv: "\<forall>k<length (w @ new). \<not> prefix q (drop k ((w @ new) @ rest))"
    proof (intro allI impI notI)
      fix k assume k: "k < length (w @ new)" and p: "prefix q (drop k ((w @ new) @ rest))"
      from p have "prefix q (drop k (w @ new @ rest))" by simp
      from occ_in_context[OF "2.prems"(2) this] k have kw: "k + length q \<le> length w" by simp
      have qne: "q \<noteq> []" using "2.prems"(1,3) by auto
      with kw have kl: "k < length w" by (cases q) auto
      from p kw have "prefix q (drop k (w @ new @ rest))" by simp
      with kw have "prefix q (drop k w)" by (simp only: prefix_drop_append)
      with kw have "prefix q (drop k (w @ c # cs))" by (simp only: prefix_drop_append)
      with "2.prems"(4) kl show False by blast
    qed
    have "\<not> sublist q ((w @ new) @ str_replace rest old new)"
      using "2.IH"(2)[OF "2.prems"(1) True "2.prems"(1) "2.prems"(2), of "w @ new"] A inv d1 by simp
    moreover have "str_replace (c # cs) old new = new @ str_replace rest old new"
      using rest "2.prems"(1) by (metis str_replace_at_match)
    ultimately show ?thesis by simp
  next
    case False
    have A: "q = old \<or> \<not> sublist q cs"
      using "2.prems"(3) by (auto simp: sublist_Cons_right)
    have nq: "\<not> prefix q (c # cs)"
      using "2.prems"(3) False by (auto dest: prefix_imp_sublist)
    have inv: "\<forall>k<length (w @ [c]). \<not> prefix q (drop k ((w @ [c]) @ cs))"
    proof (intro allI impI)
      fix k assume k: "k < length (w @ [c])"
      show "\<not> prefix q (drop k ((w @ [c]) @ cs))"
      proof (cases "k < length w")
        case True
        with "2.prems"(4) show ?thesis by simp
      next
        case False
        with k have "k = length w" by simp
        with nq show ?thesis by simp
      qed
    qed
    have "\<not> sublist q ((w @ [c]) @ str_replace cs old new)"
      using "2.IH"(3)[OF "2.prems"(1) False "2.prems"(1) "2.prems"(2), of "w @ [c]"] A inv by simp
    then show ?thesis using False "2.prems"(1) by simp
  qed
qed

lemma no_occurrence:
  assumes "old \<noteq> []" and "overlap_free q new" and "q = old \<or> \<not> sublist q s"
  shows "\<not> sublist q (str_replace s old new)"
  using no_occurrence_gen[OF assms, of "[]"] by simp


lemma prefix_str_replace:
  assumes "old \<noteq> []" and "new \<noteq> []" and "overlap_free q new"
    and "prefix q (w @ str_replace s old new)"
  shows "prefix q (w @ s)"
  using assms
proof (induction s old new arbitrary: w rule: str_replace.induct)
  case (1 old new)
  then show ?case by simp
next
  case (2 c cs old new)
  show ?case
  proof (cases "prefix old (c # cs)")
    case True
    then obtain rest where rest: "c # cs = old @ rest" by (auto simp: prefix_def)
    have "str_replace (c # cs) old new = new @ str_replace rest old new"
      using rest "2.prems"(1) by (metis str_replace_at_match)
    with "2.prems"(4) have "prefix q (drop 0 (w @ new @ str_replace rest old new))" by simp
    from occ_in_context[OF "2.prems"(3) this] "2.prems"(2)
    have "length q \<le> length w" by simp
    with "2.prems"(4) have "prefix q w" by (simp only: prefix_append_short)
    then show ?thesis by (rule prefix_prefix)
  next
    case False
    with "2.prems" have "prefix q ((w @ [c]) @ str_replace cs old new)" by simp
    from "2.IH"(3)[OF "2.prems"(1) False "2.prems"(1,2,3) this] show ?thesis by simp
  qed
qed

lemma str_replace_skip_new:
  assumes "old \<noteq> []" and "overlap_free old r"
  shows "str_replace (r @ x) old new = r @ str_replace x old new"
proof (rule str_replace_skip[OF assms(1)], intro allI impI notI)
  fix k assume k: "k < length r" and p: "prefix old (drop k (r @ x))"
  then have "prefix old (drop k ([] @ r @ x))" by simp
  from occ_in_context[OF assms(2) this] k have "length old = 0" by simp
  with assms(1) show False by simp
qed

lemma str_replace_twice_sub2:
  assumes "oa \<noteq> []" and "ob \<noteq> []" and "na \<noteq> []"
    and "overlap_free ob na" and "overlap_free oa ob"
  shows "str_replace (str_replace s oa na) ob nb = sub2 s oa na ob nb"
  using assms
proof (induction s oa na ob nb rule: sub2.induct)
  case (1 oa na ob nb)
  then show ?case by simp
next
  case (2 c cs oa na ob nb)
  show ?case
  proof (cases "prefix oa (c # cs)")
    case True
    then obtain rest where rest: "c # cs = oa @ rest" by (auto simp: prefix_def)
    have d: "drop (length oa) (c # cs) = rest" using rest by (metis append_eq_conv_conj)
    have "str_replace (c # cs) oa na = na @ str_replace rest oa na"
      using rest "2.prems"(1) by (metis str_replace_at_match)
    then have "str_replace (str_replace (c # cs) oa na) ob nb
        = na @ str_replace (str_replace rest oa na) ob nb"
      using str_replace_skip_new[OF "2.prems"(2,4)] by simp
    moreover have "str_replace (str_replace rest oa na) ob nb = sub2 rest oa na ob nb"
      using "2.IH"(1) True "2.prems" d by simp
    ultimately show ?thesis using True "2.prems"(1) d by simp
  next
    case na: False
    show ?thesis
    proof (cases "prefix ob (c # cs)")
      case True
      then obtain rest where rest: "c # cs = ob @ rest" by (auto simp: prefix_def)
      have d: "drop (length ob) (c # cs) = rest" using rest by (metis append_eq_conv_conj)
      have "str_replace (c # cs) oa na = ob @ str_replace rest oa na"
        using str_replace_skip_new[OF "2.prems"(1,5)] rest by simp
      then have "str_replace (str_replace (c # cs) oa na) ob nb
          = nb @ str_replace (str_replace rest oa na) ob nb"
        using "2.prems"(2) by (simp add: str_replace_at_match)
      moreover have "str_replace (str_replace rest oa na) ob nb = sub2 rest oa na ob nb"
        using "2.IH"(2) na True "2.prems" d by simp
      ultimately show ?thesis using True na "2.prems"(2) d by simp
    next
      case False
      have "\<not> prefix ob (c # str_replace cs oa na)"
      proof
        assume "prefix ob (c # str_replace cs oa na)"
        then have "prefix ob ([c] @ str_replace cs oa na)" by simp
        from prefix_str_replace[OF "2.prems"(1,3,4) this] False show False by simp
      qed
      then have "str_replace (str_replace (c # cs) oa na) ob nb
          = c # str_replace (str_replace cs oa na) ob nb"
        using na "2.prems"(1,2) by simp
      moreover have "str_replace (str_replace cs oa na) ob nb = sub2 cs oa na ob nb"
        using "2.IH"(3) na False "2.prems" by simp
      ultimately show ?thesis using False na by simp
    qed
  qed
qed

lemma sub2_sym:
  assumes "\<not> compat oa ob"
  shows "sub2 s oa na ob nb = sub2 s ob nb oa na"
  using assms
proof (induction s oa na ob nb rule: sub2.induct)
  case (1 oa na ob nb)
  then show ?case by simp
next
  case (2 c cs oa na ob nb)
  have excl: "\<not> (prefix oa (c # cs) \<and> prefix ob (c # cs))"
    using "2.prems" prefix_same_cases by (auto simp: compat_def)
  show ?case
  proof (cases "oa \<noteq> [] \<and> prefix oa (c # cs)")
    case True
    then have "\<not> prefix ob (c # cs)" using excl by simp
    then show ?thesis using True "2.IH"(1) "2.prems" by simp
  next
    case na: False
    show ?thesis
    proof (cases "ob \<noteq> [] \<and> prefix ob (c # cs)")
      case True
      then have "\<not> prefix oa (c # cs)" using excl by simp
      then show ?thesis using True "2.IH"(2)[OF na True "2.prems"] by simp
    next
      case False
      then show ?thesis using na "2.IH"(3)[OF na False "2.prems"] by auto
    qed
  qed
qed

lemma overlap_free_not_compat:
  assumes "overlap_free a b" and "b \<noteq> []"
  shows "\<not> compat a b"
proof -
  from assms(2) have "0 \<in> set [0..<length b]" by simp
  with assms(1) have "\<not> compat (drop 0 b) a"
    unfolding overlap_free_def list_all_iff by blast
  then show ?thesis by (auto simp: compat_def)
qed

lemma str_replace_commute:
  assumes "oa \<noteq> []" "ob \<noteq> []" "na \<noteq> []" "nb \<noteq> []"
    and "overlap_free ob na" "overlap_free oa nb" "overlap_free oa ob" "overlap_free ob oa"
  shows "str_replace (str_replace s oa na) ob nb = str_replace (str_replace s ob nb) oa na"
proof -
  have "str_replace (str_replace s oa na) ob nb = sub2 s oa na ob nb"
    using assms by (intro str_replace_twice_sub2)
  also have "\<dots> = sub2 s ob nb oa na"
    using assms overlap_free_not_compat by (intro sub2_sym) blast
  also have "\<dots> = str_replace (str_replace s ob nb) oa na"
    using assms by (intro str_replace_twice_sub2[symmetric])
  finally show ?thesis .
qed

lemma olds_news_nonempty:
  "old1 \<noteq> []" "old2 \<noteq> []" "old3 \<noteq> []" "new1 \<noteq> []" "new2 \<noteq> []" "new3 \<noteq> []"
  by (simp_all add: old1_def old2_def old3_def new1_def new2_def new3_def)

lemma commute12: "str_replace (str_replace s old1 new1) old2 new2 = str_replace (str_replace s old2 new2) old1 new1"
  by (rule str_replace_commute) (simp_all add: olds_news_nonempty old2_clear_of_new1 old1_clear_of_new2 old1_clear_of_old2 old2_clear_of_old1)

lemma commute13: "str_replace (str_replace s old1 new1) old3 new3 = str_replace (str_replace s old3 new3) old1 new1"
  by (rule str_replace_commute) (simp_all add: olds_news_nonempty old3_clear_of_new1 old1_clear_of_new3 old1_clear_of_old3 old3_clear_of_old1)

lemma commute23: "str_replace (str_replace s old2 new2) old3 new3 = str_replace (str_replace s old3 new3) old2 new2"
  by (rule str_replace_commute) (simp_all add: olds_news_nonempty old3_clear_of_new2 old2_clear_of_new3 old2_clear_of_old3 old3_clear_of_old2)

lemma rewrite_no_old1: "\<not> sublist old1 (rewrite s)"
proof -
  have "\<not> sublist old1 (str_replace s old1 new1)"
    by (rule no_occurrence[OF olds_news_nonempty(1) old1_clear_of_new1]) simp
  then have "\<not> sublist old1 (str_replace (str_replace s old1 new1) old2 new2)"
    by (intro no_occurrence[OF olds_news_nonempty(2) old1_clear_of_new2] disjI2)
  then show ?thesis
    unfolding rewrite_def by (intro no_occurrence[OF olds_news_nonempty(3) old1_clear_of_new3] disjI2)
qed

lemma rewrite_no_old2: "\<not> sublist old2 (rewrite s)"
proof -
  have "\<not> sublist old2 (str_replace (str_replace s old1 new1) old2 new2)"
    by (rule no_occurrence[OF olds_news_nonempty(2) old2_clear_of_new2]) simp
  then show ?thesis
    unfolding rewrite_def by (intro no_occurrence[OF olds_news_nonempty(3) old2_clear_of_new3] disjI2)
qed

lemma rewrite_no_old3: "\<not> sublist old3 (rewrite s)"
  unfolding rewrite_def by (rule no_occurrence[OF olds_news_nonempty(3) old3_clear_of_new3]) simp

lemma rewrite_fixed:
  "\<not> sublist old1 s \<Longrightarrow> \<not> sublist old2 s \<Longrightarrow> \<not> sublist old3 s \<Longrightarrow> rewrite s = s"
  by (simp add: rewrite_def str_replace_id olds_news_nonempty)

lemma rewrite_idem: "rewrite (rewrite s) = rewrite s"
  by (intro rewrite_fixed rewrite_no_old1 rewrite_no_old2 rewrite_no_old3)

section \<open>The patterns of the scripts\<close>

lemma match_here_lits: "match_here (map Lit old) s = prefix old s"
proof (induction old arbitrary: s)
  case Nil
  then show ?case by simp
next
  case (Cons a old)
  then show ?case by (cases s) auto
qed

lemma sub_atoms_lits: "sub_atoms (map Lit old) r s = str_replace s old r"
  by (induction s old r rule: str_replace.induct) (simp_all add: match_here_lits)

lemma replacements_eq: "replacements = [(pattern1, new1), (pattern2, new2), (pattern3, new3)]"
  by (simp add: replacements_def pattern1_def pattern2_def pattern3_def new1_def new2_def new3_def)

lemma compile1: "re_compile pattern1 = Some (map Lit old1)" by code_simp
lemma compile2: "re_compile pattern2 = Some (map Lit old2)" by code_simp
lemma compile3: "re_compile pattern3 = Some (map Lit old3)" by code_simp

lemma template1: "expand_template new1 = Some new1" by code_simp
lemma template2: "expand_template new2 = Some new2" by code_simp
lemma template3: "expand_template new3 = Some new3" by code_simp

lemma re_sub_literal:
  "re_compile p = Some (map Lit old) \<Longrightarrow> expand_template r = Some r \<Longrightarrow>
   re_sub p r s = Some (str_replace s old r)"
  by (simp add: re_sub_def sub_atoms_lits)

lemmas re_sub_rules =
  re_sub_literal[OF compile1 template1] re_sub_literal[OF compile2 template2]
  re_sub_literal[OF compile3 template3]

lemma apply_rules_rewrite: "apply_rules s replacements = Some (rewrite s)"
  by (simp add: replacements_eq re_sub_rules rewrite_def)

lemma fix_ns_replacements_rewrite: "fix_ns_replacements s = Some (rewrite s)"
proof -
  have "fix_ns_replacements s =
     (case re_sub pattern1 new1 s of None \<Rightarrow> None
      | Some content1 \<Rightarrow>
        (case re_sub pattern2 new2 content1 of None \<Rightarrow> None
         | Some content2 \<Rightarrow> re_sub pattern3 new3 content2))"
    unfolding fix_ns_replacements_def pattern1_def pattern2_def pattern3_def
      new1_def new2_def new3_def by (rule refl)
  then show ?thesis by (simp add: re_sub_rules rewrite_def)
qed

lemma rule_step_Some: "rule_step (p, r) (Some t) = re_sub p r t"
  by (simp add: rule_step_def)

lemma rule_step_None: "rule_step rule None = None"
  by (simp add: rule_step_def)

lemma fold_rule_step_None: "fold rule_step rules None = None"
  by (induction rules) (simp_all add: rule_step_None)

lemma apply_rules_fold: "apply_rules buf rules = fold rule_step rules (Some buf)"
proof (induction rules arbitrary: buf)
  case Nil
  then show ?case by simp
next
  case (Cons rule rules)
  obtain p r where rule: "rule = (p, r)" by (cases rule)
  show ?case
  proof (cases "re_sub p r buf")
    case None
    with rule show ?thesis by (simp add: rule_step_Some fold_rule_step_None)
  next
    case (Some t)
    with rule Cons.IH[of t] show ?thesis by (simp add: rule_step_Some)
  qed
qed

lemma match_here_length: "match_here as s \<Longrightarrow> length as \<le> length s"
  by (induction as s rule: match_here.induct) auto

lemma match_here_take: "match_here as s \<Longrightarrow> match_here as (take (length as) s)"
  by (induction as s rule: match_here.induct) auto

lemma replaced_all_Cons:
  assumes "replaced_all as r s out" and "\<not> match_here as (c # s)"
  shows "replaced_all as r (c # s) (c # out)"
  using assms
proof (cases rule: replaced_all.cases)
  case no_match
  have "\<forall>k\<le>length (c # s). \<not> match_here as (drop k (c # s))"
  proof (intro allI impI)
    fix k assume "k \<le> length (c # s)"
    then show "\<not> match_here as (drop k (c # s))"
      using no_match assms(2) by (cases k) auto
  qed
  then have "replaced_all as r (c # s) (c # s)" by (rule replaced_all.no_match)
  with no_match show ?thesis by simp
next
  case (at_match m u rest out')
  have "\<forall>k<length (c # u). \<not> match_here as (drop k ((c # u) @ m @ rest))"
  proof (intro allI impI)
    fix k assume "k < length (c # u)"
    then show "\<not> match_here as (drop k ((c # u) @ m @ rest))"
      using at_match assms(2) by (cases k) auto
  qed
  from replaced_all.at_match[OF at_match(3,4) this at_match(6)]
  show ?thesis using at_match by simp
qed

lemma sub_atoms_replaced_all:
  "as \<noteq> [] \<Longrightarrow> replaced_all as r s (sub_atoms as r s)"
proof (induction as r s rule: sub_atoms.induct)
  case (1 as r)
  have "\<forall>k\<le>length ([]::string). \<not> match_here as (drop k [])"
    using 1 by (cases as) auto
  then have "replaced_all as r [] []" by (rule replaced_all.no_match)
  with 1 show ?case by simp
next
  case (2 as r c cs)
  show ?case
  proof (cases "match_here as (c # cs)")
    case True
    define m where "m = take (length as) (c # cs)"
    define rest where "rest = drop (length as) (c # cs)"
    have len: "length m = length as" using match_here_length[OF True] by (simp add: m_def)
    have mm: "match_here as m" using match_here_take[OF True] by (simp add: m_def)
    have IH: "replaced_all as r rest (sub_atoms as r rest)"
      using "2.IH"(2) "2.prems" True by (simp add: rest_def)
    have "\<forall>k<length ([]::string). \<not> match_here as (drop k ([] @ m @ rest))" by simp
    from replaced_all.at_match[OF len mm this IH]
    have "replaced_all as r (m @ rest) (r @ sub_atoms as r rest)" by simp
    moreover have "m @ rest = c # cs" by (simp add: m_def rest_def)
    ultimately show ?thesis using True "2.prems" by (simp add: rest_def)
  next
    case False
    with "2.IH"(3) "2.prems" have "replaced_all as r cs (sub_atoms as r cs)" by simp
    from replaced_all_Cons[OF this False] show ?thesis using False "2.prems" by simp
  qed
qed


lemma rule_step_commute:
  assumes "x \<in> set replacements" and "y \<in> set replacements"
  shows "rule_step x (rule_step y b) = rule_step y (rule_step x b)"
proof (cases b)
  case None
  then show ?thesis by (simp add: rule_step_None)
next
  case (Some t)
  with assms show ?thesis
    using commute12[of t] commute13[of t] commute23[of t]
    by (auto simp: replacements_eq rule_step_Some re_sub_rules)
qed

lemma apply_rules_permuted:
  assumes "mset rules = mset replacements"
  shows "apply_rules t rules = apply_rules t replacements"
proof -
  have "set rules = set replacements" using assms by (rule mset_eq_setD)
  then have "\<And>x y. x \<in> set rules \<Longrightarrow> y \<in> set rules \<Longrightarrow>
      rule_step x \<circ> rule_step y = rule_step y \<circ> rule_step x"
    by (auto simp: fun_eq_iff rule_step_commute)
  then have "fold rule_step rules = fold rule_step replacements"
    using assms by (rule fold_multiset_equiv)
  then show ?thesis by (simp add: apply_rules_fold)
qed

lemma replacement_untouched:
  assumes "rule \<in> set replacements" and "rule' \<in> set replacements"
  shows "re_sub (fst rule) (snd rule) (snd rule') = Some (snd rule')"
proof -
  have "re_sub pattern1 new1 new1 = Some new1" "re_sub pattern1 new1 new2 = Some new2"
    "re_sub pattern1 new1 new3 = Some new3" "re_sub pattern2 new2 new1 = Some new1"
    "re_sub pattern2 new2 new2 = Some new2" "re_sub pattern2 new2 new3 = Some new3"
    "re_sub pattern3 new3 new1 = Some new1" "re_sub pattern3 new3 new2 = Some new2"
    "re_sub pattern3 new3 new3 = Some new3"
    by code_simp+
  with assms show ?thesis by (auto simp: replacements_eq)
qed

section \<open>Occurrences of the patterns in a text\<close>

lemma matches_in_literal:
  assumes "re_compile p = Some (map Lit old)"
  shows "matches_in p s = sublist old s"
proof
  assume "matches_in p s"
  then obtain k where "prefix old (drop k s)"
    using assms by (auto simp: matches_in_def list_ex_iff match_here_lits)
  then show "sublist old s" by (rule prefix_drop_sublist)
next
  assume "sublist old s"
  then obtain k where "k + length old \<le> length s" "prefix old (drop k s)"
    using sublist_prefix_drop by blast
  then have "k \<in> set [0..<Suc (length s)]" "match_here (map Lit old) (drop k s)"
    by (auto simp: match_here_lits)
  then show "matches_in p s"
    unfolding matches_in_def assms list_ex_iff by auto
qed

lemma no_rule_matches:
  "(\<forall>rule\<in>set replacements. \<not> matches_in (fst rule) s)
     = (\<not> sublist old1 s \<and> \<not> sublist old2 s \<and> \<not> sublist old3 s)"
  by (simp add: replacements_eq matches_in_literal[OF compile1] matches_in_literal[OF compile2]
      matches_in_literal[OF compile3])

lemma occ_before:
  assumes nc: "\<forall>j\<in>{1..<length q}. \<not> compat (drop j q) r"
    and pre: "prefix q (drop k (w @ r @ v))"
    and k: "k < length w"
  shows "k + length q \<le> length w"
proof (rule ccontr)
  assume "\<not> k + length q \<le> length w"
  then have long: "length w - k < length q" using k by arith
  define j where "j = length w - k"
  have j: "1 \<le> j" "j < length q" using k long by (auto simp: j_def)
  from pre k have "prefix q (drop k w @ r @ v)" by simp
  then obtain us where q: "q = drop k w @ us" and us: "prefix us (r @ v)"
    using long by (auto simp: prefix_append dest: prefix_length_le)
  have "us = drop j q" by (simp add: q j_def)
  with us have "compat (drop j q) r" by (simp add: prefix_app_compat)
  moreover from nc j have "\<not> compat (drop j q) r" by simp
  ultimately show False by simp
qed

lemma occ_before_self:
  assumes "unbordered q" and "prefix q (drop k (w @ q @ v))" and "k < length w"
  shows "k + length q \<le> length w"
proof -
  from assms(1) have "\<forall>j\<in>{1..<length q}. \<not> compat (drop j q) q"
    by (auto simp: unbordered_def list_all_iff)
  from occ_before[OF this assms(2,3)] show ?thesis .
qed

lemma sublist_around:
  assumes "overlap_free q r" and "sublist q (w @ r @ v)"
  shows "sublist q w \<or> sublist q v"
proof -
  from assms(2) obtain k where k: "k + length q \<le> length (w @ r @ v)"
    "prefix q (drop k (w @ r @ v))"
    using sublist_prefix_drop by blast
  show ?thesis
  proof (cases "k < length w + length r")
    case True
    from occ_in_context[OF assms(1) k(2) True] have le: "k + length q \<le> length w" .
    with k(2) have "prefix q (drop k w)" by (simp only: prefix_drop_append)
    then have "sublist q w" by (rule prefix_drop_sublist)
    then show ?thesis ..
  next
    case False
    then have "drop k (w @ r @ v) = drop (k - length w - length r) v" by simp
    with k(2) have "prefix q (drop (k - length w - length r) v)" by simp
    then have "sublist q v" by (rule prefix_drop_sublist)
    then show ?thesis ..
  qed
qed

lemma str_replace_occurrence:
  assumes "old \<noteq> []" and "unbordered old"
  shows "str_replace (u @ old @ v) old new = str_replace u old new @ new @ str_replace v old new"
proof -
  have "\<forall>k<length u. prefix old (drop k (u @ old @ v)) \<longrightarrow> k + length old \<le> length u"
    using occ_before_self[OF assms(2)] by blast
  then have "str_replace (u @ old @ v) old new
      = str_replace u old new @ str_replace (old @ v) old new"
    by (rule str_replace_split[OF assms(1)])
  then show ?thesis by (simp add: str_replace_at_match[OF assms(1)])
qed

lemma str_replace_around:
  assumes "old \<noteq> []" and "overlap_free old r"
  shows "str_replace (u @ r @ v) old new = str_replace u old new @ r @ str_replace v old new"
proof -
  have "\<forall>k<length u. prefix old (drop k (u @ r @ v)) \<longrightarrow> k + length old \<le> length u"
  proof (intro allI impI)
    fix k assume "k < length u" and p: "prefix old (drop k (u @ r @ v))"
    then have "k < length u + length r" by simp
    with p show "k + length old \<le> length u" by (rule occ_in_context[OF assms(2)])
  qed
  then have "str_replace (u @ r @ v) old new
      = str_replace u old new @ str_replace (r @ v) old new"
    by (rule str_replace_split[OF assms(1)])
  then show ?thesis by (simp add: str_replace_skip_new[OF assms])
qed

lemma rewrite_old1: "rewrite (u @ old1 @ v) = rewrite u @ new1 @ rewrite v"
  by (simp add: rewrite_def str_replace_occurrence[OF olds_news_nonempty(1) old1_unbordered]
      str_replace_around[OF olds_news_nonempty(2) old2_clear_of_new1]
      str_replace_around[OF olds_news_nonempty(3) old3_clear_of_new1])

lemma rewrite_old2: "rewrite (u @ old2 @ v) = rewrite u @ new2 @ rewrite v"
  by (simp add: rewrite_def str_replace_occurrence[OF olds_news_nonempty(2) old2_unbordered]
      str_replace_around[OF olds_news_nonempty(1) old1_clear_of_old2]
      str_replace_around[OF olds_news_nonempty(3) old3_clear_of_new2])

lemma rewrite_old3: "rewrite (u @ old3 @ v) = rewrite u @ new3 @ rewrite v"
  by (simp add: rewrite_def str_replace_occurrence[OF olds_news_nonempty(3) old3_unbordered]
      str_replace_around[OF olds_news_nonempty(1) old1_clear_of_old3]
      str_replace_around[OF olds_news_nonempty(2) old2_clear_of_old3])

lemma rewrite_changes:
  assumes "sublist old1 s \<or> sublist old2 s \<or> sublist old3 s"
  shows "rewrite s \<noteq> s"
  using assms rewrite_no_old1[of s] rewrite_no_old2[of s] rewrite_no_old3[of s] by auto

section \<open>Lines and newlines\<close>

lemma set_str_replace: "set (str_replace s old new) \<subseteq> set s \<union> set new"
proof (induction s old new rule: str_replace.induct)
  case (1 old new)
  then show ?case by auto
next
  case (2 c cs old new)
  have "set (drop (length old) (c # cs)) \<subseteq> set (c # cs)" by (rule set_drop_subset)
  with 2 show ?case by (auto split: if_splits)
qed

lemma split_lines_nonempty: "split_lines s \<noteq> []"
  by (cases s) (auto split: list.splits)

lemma split_lines_no_LF: "LF \<notin> set a \<Longrightarrow> split_lines a = [a]"
  by (induction a) auto

lemma split_lines_append_LF: "LF \<notin> set a \<Longrightarrow> split_lines (a @ LF # b) = a # split_lines b"
  by (induction a) (auto split: list.splits simp: split_lines_nonempty)

lemma str_replace_LF:
  assumes "old \<noteq> []" and "LF \<notin> set old"
  shows "str_replace (a @ LF # b) old new = str_replace a old new @ LF # str_replace b old new"
proof -
  have "\<forall>k<length a. prefix old (drop k (a @ LF # b)) \<longrightarrow> k + length old \<le> length a"
  proof (intro allI impI, rule ccontr)
    fix k assume k: "k < length a" and p: "prefix old (drop k (a @ LF # b))"
      and n: "\<not> k + length old \<le> length a"
    from p k have "prefix old (drop k a @ LF # b)" by simp
    moreover have "\<not> prefix old (drop k a)"
    proof
      assume "prefix old (drop k a)"
      then have "length old \<le> length (drop k a)" by (rule prefix_length_le)
      with n k show False by simp
    qed
    ultimately obtain us where "old = drop k a @ us" "prefix us (LF # b)" "us \<noteq> []"
      by (auto simp: prefix_append)
    then have "LF \<in> set old" by (cases us) (auto simp: prefix_Cons)
    with assms(2) show False by simp
  qed
  then have "str_replace (a @ LF # b) old new
      = str_replace a old new @ str_replace (LF # b) old new"
    by (rule str_replace_split[OF assms(1)])
  moreover have "\<not> prefix old (LF # b)"
    using assms by (cases old) (auto simp: prefix_Cons)
  ultimately show ?thesis using assms(1) by simp
qed

lemma split_lines_str_replace:
  assumes "old \<noteq> []" and "LF \<notin> set old" and "LF \<notin> set new"
  shows "split_lines (str_replace t old new) = map (\<lambda>l. str_replace l old new) (split_lines t)"
proof (induction "length t" arbitrary: t rule: less_induct)
  case less
  show ?case
  proof (cases "LF \<in> set t")
    case True
    then obtain a b where t: "t = a @ LF # b" and a: "LF \<notin> set a"
      by (meson split_list_first)
    have na: "LF \<notin> set (str_replace a old new)"
      using set_str_replace[of a old new] a assms(3) by auto
    have "length b < length t" by (simp add: t)
    then have IH: "split_lines (str_replace b old new)
        = map (\<lambda>l. str_replace l old new) (split_lines b)" by (rule less)
    show ?thesis
      by (simp add: t str_replace_LF[OF assms(1,2)] split_lines_append_LF a na IH)
  next
    case False
    then have "LF \<notin> set (str_replace t old new)"
      using set_str_replace[of t old new] assms(3) by auto
    with False show ?thesis by (simp add: split_lines_no_LF)
  qed
qed

lemma no_LF_in_rules:
  "LF \<notin> set old1" "LF \<notin> set old2" "LF \<notin> set old3"
  "LF \<notin> set new1" "LF \<notin> set new2" "LF \<notin> set new3"
  by code_simp+

lemma no_CR_in_news: "CR \<notin> set new1" "CR \<notin> set new2" "CR \<notin> set new3"
  by code_simp+

lemma split_lines_rewrite: "split_lines (rewrite t) = map rewrite (split_lines t)"
  by (simp add: rewrite_def split_lines_str_replace olds_news_nonempty no_LF_in_rules comp_def)

lemma rewrite_lines:
  "rewrite old1 = new1" "rewrite old2 = new2" "rewrite old3 = new3"
  by code_simp+

lemma str_replace_no_CR:
  "CR \<notin> set s \<Longrightarrow> CR \<notin> set new \<Longrightarrow> CR \<notin> set (str_replace s old new)"
  using set_str_replace[of s old new] by auto

lemma rewrite_no_CR: "CR \<notin> set s \<Longrightarrow> CR \<notin> set (rewrite s)"
  unfolding rewrite_def by (intro str_replace_no_CR no_CR_in_news)

lemma universal_newlines_no_CR: "CR \<notin> set (universal_newlines s)"
  by (induction s rule: universal_newlines.induct) (auto simp: CR_def LF_def)

lemma universal_newlines_Cons:
  "c \<noteq> CR \<Longrightarrow> universal_newlines (c # s) = c # universal_newlines s"
  by (cases s) auto

lemma universal_newlines_id: "CR \<notin> set s \<Longrightarrow> universal_newlines s = s"
  by (induction s) (auto simp: universal_newlines_Cons)

lemma newline_out_LF: "newline_out [LF] s = s"
  by (induction s) (auto simp: newline_out_def)

lemma universal_newlines_out_CRLF:
  "CR \<notin> set s \<Longrightarrow> universal_newlines (newline_out [CR, LF] s) = s"
  by (induction s) (auto simp: newline_out_def universal_newlines_Cons)

lemma read_after_write:
  assumes "os_linesep w = [LF] \<or> os_linesep w = [CR, LF]" and "CR \<notin> set s"
  shows "universal_newlines (newline_out (os_linesep w) s) = s"
  using assms by (auto simp: newline_out_LF universal_newlines_id universal_newlines_out_CRLF)

section \<open>Files and runs\<close>

lemma fix_file_outcome:
  "fix_file path w = Some
     (case outcome w path of
        Changed u \<Rightarrow> (True, w\<lparr>disk := (disk w)(path := file_after w path)\<rparr>)
      | Unchanged \<Rightarrow> (False, w)
      | Failed e \<Rightarrow> (False, print_err (error_line path e) w))"
  by (auto simp: fix_file_def outcome_def file_after_def fix_ns_replacements_rewrite write_text_def
      split: sum.splits option.splits)

lemma rglob_cs_prefix:
  "p \<in> set (rglob_cs base n) \<Longrightarrow> prefix base p"
  "p \<in> set (rglob_cs_dirs base es) \<Longrightarrow> prefix base p"
  by (induction base n and base es arbitrary: p and p rule: rglob_cs_rglob_cs_dirs.induct)
     (auto split: if_splits dest: append_prefixD)

lemma process_file_outcome:
  assumes "prefix script_dir cs_file"
  shows "process_file script_dir cs_file w = Some
     (case outcome w (str_path cs_file) of
        Changed u \<Rightarrow> print_out (''Fixed: '' @ str_path (drop (length script_dir) cs_file))
                      (w\<lparr>disk := (disk w)(str_path cs_file := file_after w (str_path cs_file))\<rparr>)
      | Unchanged \<Rightarrow> w
      | Failed e \<Rightarrow> print_out (error_line (str_path cs_file) e) w)"
  using assms
  by (auto simp: process_file_def outcome_def file_after_def apply_rules_rewrite write_text_def
      relative_to_def split: sum.splits option.splits)


lemma outcome_cong:
  "disk w' p = disk w p \<Longrightarrow> outcome w' p = outcome w p"
  by (auto simp: outcome_def read_text_def split: sum.splits option.splits)

lemma file_after_cong:
  "disk w' p = disk w p \<Longrightarrow> os_linesep w' = os_linesep w \<Longrightarrow> file_after w' p = file_after w p"
  by (simp add: file_after_def outcome_cong[of w' p w] split: outcome.splits)

lemma failure_lines_cong:
  "disk w' p = disk w p \<Longrightarrow> failure_lines w' p = failure_lines w p"
  by (simp add: failure_lines_def outcome_cong[of w' p w])

lemma report_lines_cong:
  "disk w' (str_path f) = disk w (str_path f) \<Longrightarrow> report_lines sd w' f = report_lines sd w f"
  by (simp add: report_lines_def outcome_cong[of w' "str_path f" w])

lemma fix_file_uniform:
  "fix_file p w = Some (is_changed (outcome w p),
     w\<lparr>disk := (disk w)(p := file_after w p), stderr := stderr w @ failure_lines w p\<rparr>)"
  by (cases "outcome w p")
     (simp_all add: fix_file_outcome file_after_def failure_lines_def print_err_def)

lemma process_file_uniform:
  assumes "prefix sd f"
  shows "process_file sd f w = Some
     (w\<lparr>disk := (disk w)(str_path f := file_after w (str_path f)),
        stdout := stdout w @ report_lines sd w f\<rparr>)"
  by (cases "outcome w (str_path f)")
     (simp_all add: process_file_outcome[OF assms] file_after_def report_lines_def print_out_def)

lemma path_loop_distinct:
  assumes "distinct ps"
  shows "path_loop ps (n, w) = Some
     (n + length (filter (\<lambda>p. is_changed (outcome w p)) ps),
      w\<lparr>disk := disk_after w ps, stderr := stderr w @ concat (map (failure_lines w) ps)\<rparr>)"
  using assms
proof (induction ps arbitrary: n w)
  case Nil
  have "disk_after w [] = disk w" by (simp add: disk_after_def)
  then show ?case by simp
next
  case (Cons p ps)
  define w1 where "w1 = w\<lparr>disk := (disk w)(p := file_after w p),
     stderr := stderr w @ failure_lines w p\<rparr>"
  have same: "disk w1 q = disk w q" if "q \<in> set ps" for q
    using that Cons.prems by (auto simp: w1_def)
  have sep: "os_linesep w1 = os_linesep w" by (simp add: w1_def)
  have f: "filter (\<lambda>q. is_changed (outcome w1 q)) ps = filter (\<lambda>q. is_changed (outcome w q)) ps"
    by (rule filter_cong) (simp_all add: outcome_cong[of w1 _ w] same)
  have m: "map (failure_lines w1) ps = map (failure_lines w) ps"
    by (rule map_cong) (simp_all add: failure_lines_cong[of w1 _ w] same)
  have d: "disk_after w1 ps = disk_after w (p # ps)"
  proof
    fix q show "disk_after w1 ps q = disk_after w (p # ps) q"
    proof (cases "q \<in> set ps")
      case True
      then show ?thesis
        using Cons.prems by (simp add: disk_after_def file_after_cong[of w1 q w] same sep)
    next
      case False
      then show ?thesis by (simp add: disk_after_def w1_def)
    qed
  qed
  have "path_loop (p # ps) (n, w)
      = path_loop ps (if is_changed (outcome w p) then n + 1 else n, w1)"
    by (simp add: fix_file_uniform w1_def)
  also have "\<dots> = Some
     ((if is_changed (outcome w p) then n + 1 else n)
        + length (filter (\<lambda>q. is_changed (outcome w1 q)) ps),
      w1\<lparr>disk := disk_after w1 ps, stderr := stderr w1 @ concat (map (failure_lines w1) ps)\<rparr>)"
    using Cons.prems by (intro Cons.IH) simp
  also have "\<dots> = Some
     (n + length (filter (\<lambda>p. is_changed (outcome w p)) (p # ps)),
      w\<lparr>disk := disk_after w (p # ps),
        stderr := stderr w @ concat (map (failure_lines w) (p # ps))\<rparr>)"
    unfolding f m d by (simp add: w1_def)
  finally show ?case .
qed

lemma cs_files_loop_distinct:
  assumes "distinct (map str_path fs)" and "\<forall>f\<in>set fs. prefix sd f"
  shows "cs_files_loop sd fs w = Some
     (w\<lparr>disk := disk_after w (map str_path fs),
        stdout := stdout w @ concat (map (report_lines sd w) fs)\<rparr>)"
  using assms
proof (induction fs arbitrary: w)
  case Nil
  have "disk_after w [] = disk w" by (simp add: disk_after_def)
  then show ?case by simp
next
  case (Cons f fs)
  define w1 where "w1 = w\<lparr>disk := (disk w)(str_path f := file_after w (str_path f)),
     stdout := stdout w @ report_lines sd w f\<rparr>"
  have same: "disk w1 (str_path g) = disk w (str_path g)" if "g \<in> set fs" for g
  proof -
    from that have "str_path g \<in> set (map str_path fs)" by simp
    moreover from Cons.prems(1) have "str_path f \<notin> set (map str_path fs)" by simp
    ultimately have "str_path g \<noteq> str_path f" by metis
    then show ?thesis by (simp add: w1_def)
  qed
  have sep: "os_linesep w1 = os_linesep w" by (simp add: w1_def)
  have m: "map (report_lines sd w1) fs = map (report_lines sd w) fs"
    by (rule map_cong) (simp_all add: report_lines_cong[of w1 _ w] same)
  have d: "disk_after w1 (map str_path fs) = disk_after w (map str_path (f # fs))"
  proof
    fix q show "disk_after w1 (map str_path fs) q = disk_after w (map str_path (f # fs)) q"
    proof (cases "q \<in> set (map str_path fs)")
      case True
      then obtain g where g: "g \<in> set fs" "q = str_path g" by auto
      with same[OF g(1)] have "file_after w1 q = file_after w q"
        by (intro file_after_cong) (simp_all add: sep)
      with True show ?thesis by (simp add: disk_after_def)
    next
      case False
      then show ?thesis by (simp add: disk_after_def w1_def)
    qed
  qed
  have "cs_files_loop sd (f # fs) w = cs_files_loop sd fs w1"
    using Cons.prems by (simp add: process_file_uniform w1_def)
  also have "\<dots> = Some
     (w1\<lparr>disk := disk_after w1 (map str_path fs),
         stdout := stdout w1 @ concat (map (report_lines sd w1) fs)\<rparr>)"
    using Cons.prems by (intro Cons.IH) simp_all
  also have "\<dots> = Some
     (w\<lparr>disk := disk_after w (map str_path (f # fs)),
        stdout := stdout w @ concat (map (report_lines sd w) (f # fs))\<rparr>)"
    unfolding m d by (simp add: w1_def)
  finally show ?case .
qed

lemma files_loop_path_loop:
  "files_loop root files st = path_loop (map (path_join root) (filter (suffix ''.cs'') files)) st"
proof (induction files arbitrary: st)
  case Nil
  then show ?case by (cases st) simp
next
  case (Cons f files)
  then show ?case by (cases st) (auto split: option.splits)
qed

lemma path_loop_append:
  "path_loop (ps @ qs) st = (case path_loop ps st of None \<Rightarrow> None | Some st' \<Rightarrow> path_loop qs st')"
proof (induction ps arbitrary: st)
  case Nil
  then show ?case by simp
next
  case (Cons p ps)
  then show ?case by (cases st) (auto split: option.splits)
qed

lemma walk_loop_path_loop: "walk_loop triples st = path_loop (cs_paths triples) st"
proof (induction triples arbitrary: st)
  case Nil
  then show ?case by (simp add: cs_paths_def)
next
  case (Cons t triples)
  obtain root dirs files where t: "t = (root, dirs, files)" by (cases t)
  have "cs_paths (t # triples)
      = map (path_join root) (filter (suffix ''.cs'') files) @ cs_paths triples"
    by (simp add: cs_paths_def t)
  then show ?case using Cons.IH
    by (simp add: t files_loop_path_loop path_loop_append split: option.splits)
qed

lemma main_ns_distinct:
  assumes "distinct (cs_paths (walk ''.'' cwd))"
  shows "main_ns cwd w = Some (0,
     w\<lparr>disk := disk_after w (cs_paths (walk ''.'' cwd)),
       stderr := stderr w @ concat (map (failure_lines w) (cs_paths (walk ''.'' cwd))),
       stdout := stdout w @
         [''Fixed '' @ str_nat (length (filter (\<lambda>p. is_changed (outcome w p))
                                   (cs_paths (walk ''.'' cwd)))) @ '' files'']\<rparr>)"
  by (simp add: main_ns_def walk_loop_path_loop path_loop_distinct[OF assms] print_out_def)

lemma rglob_prefix: "f \<in> set (rglob sd root) \<Longrightarrow> prefix sd f"
  by (auto simp: rglob_def rglob_cs_prefix split: option.splits)

lemma main_namespaces_distinct:
  assumes "distinct (map str_path (rglob sd root))"
  shows "main_namespaces sd root w = Some (0,
     w\<lparr>disk := disk_after w (map str_path (rglob sd root)),
       stdout := stdout w @
         [''Found '' @ str_nat (length (rglob sd root)) @ '' C# files to process...''] @
         concat (map (report_lines sd w) (rglob sd root)) @ [''Done!'']\<rparr>)"
proof -
  define w1 where "w1 = print_out (''Found '' @ str_nat (length (rglob sd root)) @ '' C# files to process...'') w"
  have c: "\<And>f. report_lines sd w1 f = report_lines sd w f"
    by (rule report_lines_cong) (simp add: w1_def print_out_def)
  have "\<And>q. file_after w1 q = file_after w q"
    by (rule file_after_cong) (simp_all add: w1_def print_out_def)
  then have d: "disk_after w1 = disk_after w"
    by (simp add: fun_eq_iff disk_after_def) (simp add: w1_def print_out_def)
  have "cs_files_loop sd (rglob sd root) w1 = Some
     (w1\<lparr>disk := disk_after w1 (map str_path (rglob sd root)),
         stdout := stdout w1 @ concat (map (report_lines sd w1) (rglob sd root))\<rparr>)"
    using assms rglob_prefix by (intro cs_files_loop_distinct) auto
  then have loop: "cs_files_loop sd (rglob sd root) w1 = Some
     (w1\<lparr>disk := disk_after w (map str_path (rglob sd root)),
         stdout := stdout w1 @ concat (map (report_lines sd w) (rglob sd root))\<rparr>)"
    unfolding c d .
  have "main_namespaces sd root w =
     (case cs_files_loop sd (rglob sd root) w1 of
        None \<Rightarrow> None
      | Some w2 \<Rightarrow> Some (0, print_out ''Done!'' w2))"
    by (simp add: main_namespaces_def Let_def w1_def)
  also have "\<dots> = Some (0, print_out ''Done!''
     (w1\<lparr>disk := disk_after w (map str_path (rglob sd root)),
         stdout := stdout w1 @ concat (map (report_lines sd w) (rglob sd root))\<rparr>))"
    by (simp add: loop)
  finally show ?thesis by (simp add: w1_def print_out_def)
qed

section \<open>A file that is rewritten\<close>

lemma read_text_no_CR: "read_text w path = Inr content \<Longrightarrow> CR \<notin> set content"
  by (auto simp: read_text_def universal_newlines_no_CR split: sum.splits)

lemma outcome_unchanged:
  "read_text w path = Inr content \<Longrightarrow> rewrite content = content \<Longrightarrow> outcome w path = Unchanged"
  by (simp add: outcome_def)

lemma outcome_changed:
  "read_text w path = Inr content \<Longrightarrow> rewrite content \<noteq> content \<Longrightarrow>
   write_error (disk w path) = None \<Longrightarrow> outcome w path = Changed (rewrite content)"
  by (simp add: outcome_def)

lemma outcome_failed_read:
  "read_text w path = Inl e \<Longrightarrow> outcome w path = Failed e"
  by (simp add: outcome_def)

lemma read_changed_file:
  assumes "read_text w path = Inr content" and "rewrite content \<noteq> content"
    and "write_error (disk w path) = None"
    and "os_linesep w = [LF] \<or> os_linesep w = [CR, LF]"
    and "disk w' path = file_after w path"
  shows "read_text w' path = Inr (rewrite content)"
proof -
  have "CR \<notin> set (rewrite content)"
    using assms(1) by (intro rewrite_no_CR read_text_no_CR)
  with assms(4) have "universal_newlines (newline_out (os_linesep w) (rewrite content))
      = rewrite content" by (rule read_after_write)
  then show ?thesis
    using assms by (simp add: read_text_def file_after_def outcome_changed)
qed

lemma line_reads_rewrite:
  assumes "line_reads w path i l" and "rewrite l \<noteq> l"
  obtains content where "read_text w path = Inr content" and "rewrite content \<noteq> content"
    and "i < length (split_lines (rewrite content))"
    and "split_lines (rewrite content) ! i = rewrite l"
proof -
  from assms(1) obtain content where c: "read_text w path = Inr content"
    "i < length (split_lines content)" "split_lines content ! i = l"
    by (auto simp: line_reads_def split: sum.splits)
  have lines: "split_lines (rewrite content) = map rewrite (split_lines content)"
    by (rule split_lines_rewrite)
  have "rewrite content \<noteq> content"
  proof
    assume "rewrite content = content"
    with lines have "map rewrite (split_lines content) ! i = split_lines content ! i" by simp
    with c(2,3) assms(2) show False by simp
  qed
  moreover have "split_lines (rewrite content) ! i = rewrite l"
    using c(2,3) lines by simp
  moreover have "i < length (split_lines (rewrite content))" using c(2) lines by simp
  ultimately show ?thesis using c(1) that by blast
qed

lemma disk_after_member: "p \<in> set ps \<Longrightarrow> disk_after w ps p = file_after w p"
  by (simp add: disk_after_def)


lemma changed_fix_file:
  assumes "read_text w path = Inr content" and "rewrite content \<noteq> content"
    and "write_error (disk w path) = None"
    and "os_linesep w = [LF] \<or> os_linesep w = [CR, LF]"
  shows "\<exists>w'. fix_file path w = Some (True, w') \<and> read_text w' path = Inr (rewrite content)"
proof -
  define w' where "w' = w\<lparr>disk := (disk w)(path := file_after w path),
     stderr := stderr w @ failure_lines w path\<rparr>"
  have "fix_file path w = Some (True, w')"
    using outcome_changed[OF assms(1-3)] by (simp add: fix_file_uniform w'_def)
  moreover have "read_text w' path = Inr (rewrite content)"
    by (rule read_changed_file[OF assms]) (simp add: w'_def)
  ultimately show ?thesis by blast
qed

lemma changed_main_ns:
  assumes "read_text w path = Inr content" and "rewrite content \<noteq> content"
    and "write_error (disk w path) = None"
    and "os_linesep w = [LF] \<or> os_linesep w = [CR, LF]"
    and "path \<in> set (cs_paths (walk ''.'' cwd))" and "distinct (cs_paths (walk ''.'' cwd))"
  shows "\<exists>w'. main_ns cwd w = Some (0, w') \<and> read_text w' path = Inr (rewrite content) \<and>
     is_changed (outcome w path) \<and>
     stdout w' = stdout w @
       [''Fixed '' @ str_nat (length (filter (\<lambda>p. is_changed (outcome w p))
                                 (cs_paths (walk ''.'' cwd)))) @ '' files'']"
proof -
  from main_ns_distinct[OF assms(6), of w] obtain w' where
    m: "main_ns cwd w = Some (0, w')"
    and d: "disk w' = disk_after w (cs_paths (walk ''.'' cwd))"
    and out: "stdout w' = stdout w @
       [''Fixed '' @ str_nat (length (filter (\<lambda>p. is_changed (outcome w p))
                                 (cs_paths (walk ''.'' cwd)))) @ '' files'']"
    by simp
  have "disk w' path = file_after w path" by (simp add: d disk_after_member assms(5))
  then have "read_text w' path = Inr (rewrite content)"
    by (rule read_changed_file[OF assms(1-4)])
  moreover have "is_changed (outcome w path)" by (simp add: outcome_changed[OF assms(1-3)])
  ultimately show ?thesis using m out by blast
qed

lemma changed_process_file:
  assumes "read_text w path = Inr content" and "rewrite content \<noteq> content"
    and "write_error (disk w path) = None"
    and "os_linesep w = [LF] \<or> os_linesep w = [CR, LF]"
    and "str_path cs_file = path" and "prefix script_dir cs_file"
  shows "\<exists>w'. process_file script_dir cs_file w = Some w' \<and>
     read_text w' path = Inr (rewrite content) \<and>
     stdout w' = stdout w @ [''Fixed: '' @ str_path (drop (length script_dir) cs_file)]"
proof -
  define w' where "w' = w\<lparr>disk := (disk w)(path := file_after w path),
     stdout := stdout w @ report_lines script_dir w cs_file\<rparr>"
  have o: "outcome w (str_path cs_file) = Changed (rewrite content)"
    using outcome_changed[OF assms(1-3)] assms(5) by simp
  have "process_file script_dir cs_file w = Some w'"
    by (simp add: process_file_uniform[OF assms(6)] w'_def assms(5))
  moreover have "read_text w' path = Inr (rewrite content)"
    by (rule read_changed_file[OF assms(1-4)]) (simp add: w'_def)
  moreover have "stdout w' = stdout w @ [''Fixed: '' @ str_path (drop (length script_dir) cs_file)]"
    by (simp add: w'_def report_lines_def o)
  ultimately show ?thesis by blast
qed

lemma changed_main_namespaces:
  assumes "read_text w path = Inr content" and "rewrite content \<noteq> content"
    and "write_error (disk w path) = None"
    and "os_linesep w = [LF] \<or> os_linesep w = [CR, LF]"
    and "str_path cs_file = path" and "cs_file \<in> set (rglob script_dir root)"
    and "distinct (map str_path (rglob script_dir root))"
  shows "\<exists>w'. main_namespaces script_dir root w = Some (0, w') \<and>
     read_text w' path = Inr (rewrite content) \<and>
     ''Fixed: '' @ str_path (drop (length script_dir) cs_file) \<in> set (stdout w')"
proof -
  from main_namespaces_distinct[OF assms(7), of w] obtain w' where
    m: "main_namespaces script_dir root w = Some (0, w')"
    and d: "disk w' = disk_after w (map str_path (rglob script_dir root))"
    and out: "stdout w' = stdout w @
         [''Found '' @ str_nat (length (rglob script_dir root)) @ '' C# files to process...''] @
         concat (map (report_lines script_dir w) (rglob script_dir root)) @ [''Done!'']"
    by simp
  have "path \<in> set (map str_path (rglob script_dir root))" using assms(5,6) by auto
  then have "disk w' path = file_after w path" by (simp add: d disk_after_member)
  then have r: "read_text w' path = Inr (rewrite content)"
    by (rule read_changed_file[OF assms(1-4)])
  have "report_lines script_dir w cs_file
      = [''Fixed: '' @ str_path (drop (length script_dir) cs_file)]"
    using outcome_changed[OF assms(1-3)] assms(5) by (simp add: report_lines_def)
  then have "''Fixed: '' @ str_path (drop (length script_dir) cs_file)
      \<in> set (concat (map (report_lines script_dir w) (rglob script_dir root)))"
    using assms(6) by (auto intro!: bexI[of _ cs_file])
  then have "''Fixed: '' @ str_path (drop (length script_dir) cs_file) \<in> set (stdout w')"
    unfolding out by simp
  with m r show ?thesis by blast
qed

lemma line_reads_after:
  "read_text w' path = Inr content' \<Longrightarrow> i < length (split_lines content') \<Longrightarrow>
   split_lines content' ! i = l \<Longrightarrow> line_reads w' path i l"
  by (simp add: line_reads_def)

section \<open>Roots without files and files that fail\<close>

lemma str_nat_0: "str_nat 0 = ''0''"
  by code_simp

lemma walk_unavailable: "unavailable root \<Longrightarrow> walk top_dir root = []"
  by (cases root rule: unavailable.cases) (simp_all add: walk_def)

lemma rglob_unavailable: "unavailable root \<Longrightarrow> rglob base root = []"
  by (cases root rule: unavailable.cases) (simp_all add: rglob_def)

lemma fix_file_read_fails:
  "read_text w path = Inl e \<Longrightarrow>
   fix_file path w = Some (False, w\<lparr>stderr := stderr w @ [error_line path e]\<rparr>)"
  by (simp add: fix_file_def print_err_def)

lemma process_file_read_fails:
  "read_text w (str_path cs_file) = Inl e \<Longrightarrow>
   process_file script_dir cs_file w
     = Some (w\<lparr>stdout := stdout w @ [error_line (str_path cs_file) e]\<rparr>)"
  by (simp add: process_file_def print_out_def)

text \<open>Both scripts return on every tree and every world.\<close>

lemma path_loop_defined: "\<exists>st'. path_loop ps st = Some st'"
proof (induction ps arbitrary: st)
  case Nil
  then show ?case by simp
next
  case (Cons p ps)
  obtain fixed w where st: "st = (fixed, w)" by (cases st)
  from Cons[of "(if is_changed (outcome w p) then fixed + 1 else fixed,
      w\<lparr>disk := (disk w)(p := file_after w p), stderr := stderr w @ failure_lines w p\<rparr>)"]
  show ?case by (simp add: st fix_file_uniform)
qed

lemma main_ns_defined: "\<exists>w'. main_ns cwd w = Some (0, w')"
proof -
  obtain st' where "path_loop (cs_paths (walk ''.'' cwd)) (0, w) = Some st'"
    using path_loop_defined by blast
  then show ?thesis
    by (cases st') (simp add: main_ns_def walk_loop_path_loop)
qed

lemma process_file_defined: "\<exists>w'. process_file script_dir cs_file w = Some w'"
  by (simp add: process_file_def apply_rules_rewrite split: sum.splits)

lemma cs_files_loop_defined: "\<exists>w'. cs_files_loop script_dir fs w = Some w'"
proof (induction fs arbitrary: w)
  case Nil
  then show ?case by simp
next
  case (Cons f fs)
  obtain w1 where "process_file script_dir f w = Some w1"
    using process_file_defined by blast
  with Cons[of w1] show ?case by simp
qed

lemma main_namespaces_defined: "\<exists>w'. main_namespaces script_dir root w = Some (0, w')"
proof -
  obtain w2 where "cs_files_loop script_dir (rglob script_dir root)
      (print_out (''Found '' @ str_nat (length (rglob script_dir root)) @
         '' C# files to process...'') w) = Some w2"
    using cs_files_loop_defined by blast
  then show ?thesis by (simp add: main_namespaces_def Let_def)
qed

text \<open>When no file fails, the lines of \<^verbatim>\<open>fix-namespaces.py\<close> are those of the files changed.\<close>

lemma report_lines_without_failure:
  assumes "\<forall>f\<in>set fs. \<not> is_failed (outcome w (str_path f))"
  shows "concat (map (report_lines sd w) fs)
     = map (\<lambda>f. ''Fixed: '' @ str_path (drop (length sd) f))
         (filter (\<lambda>f. is_changed (outcome w (str_path f))) fs)"
  using assms
proof (induction fs)
  case Nil
  then show ?case by simp
next
  case (Cons f fs)
  then show ?case by (cases "outcome w (str_path f)") (simp_all add: report_lines_def)
qed

section \<open>The paths of a well-formed tree are distinct\<close>

lemma cs_paths_Nil: "cs_paths [] = []"
  by (simp add: cs_paths_def)

lemma cs_paths_Cons:
  "cs_paths ((root, dirs, files) # ts)
     = map (path_join root) (filter (suffix ''.cs'') files) @ cs_paths ts"
  by (simp add: cs_paths_def)

lemma cs_paths_append: "cs_paths (xs @ ys) = cs_paths xs @ cs_paths ys"
  by (simp add: cs_paths_def)

lemma path_join_good:
  assumes "good_top t" and "good_name n"
  shows "path_join t n = t @ ''/'' @ n"
proof -
  from assms(2) have "\<not> prefix ''/'' n" by (cases n) (auto simp: good_name_def)
  moreover from assms(1) have "\<not> suffix ''/'' t"
    by (auto simp: good_top_def suffix_def)
  ultimately show ?thesis using assms(1) by (simp add: path_join_def good_top_def)
qed

lemma good_top_join:
  assumes "good_top t" and "good_name n"
  shows "good_top (path_join t n)"
proof -
  from assms(2) have "n \<noteq> []" "last n \<noteq> CHR ''/''"
    by (auto simp: good_name_def) (metis last_in_set)
  then show ?thesis by (simp add: path_join_good[OF assms] good_top_def)
qed

lemma wf_entries_member:
  "wf_entries es \<Longrightarrow> e \<in> set es \<Longrightarrow> good_name (fst e) \<and> wf_node (snd e)"
  by (induction es) (auto simp: good_name_def)

lemma slash_free_split:
  assumes "CHR ''/'' \<notin> set a" and "CHR ''/'' \<notin> set b" and "a @ CHR ''/'' # x = b @ CHR ''/'' # y"
  shows "a = b"
  using assms
proof (induction a arbitrary: b)
  case Nil
  then show ?case by (cases b) auto
next
  case (Cons c a)
  then show ?case by (cases b) auto
qed

lemma walk_paths_shape:
  "wf_node n \<Longrightarrow> good_top t \<Longrightarrow> p \<in> set (cs_paths (os_walk t n)) \<Longrightarrow>
     \<exists>rest. p = t @ ''/'' @ rest"
  "wf_entries es \<Longrightarrow> good_top t \<Longrightarrow> p \<in> set (cs_paths (os_walk_dirs t es)) \<Longrightarrow>
     \<exists>e rest. e \<in> set es \<and> p = t @ ''/'' @ fst e @ ''/'' @ rest"
proof (induction t n and t es arbitrary: p and p rule: os_walk_os_walk_dirs.induct)
  case (1 top_dir)
  then show ?case by (simp add: cs_paths_Nil)
next
  case (2 top_dir ok es)
  show ?case
  proof (cases ok)
    case False
    with 2 show ?thesis by (simp add: cs_paths_Nil)
  next
    case True
    with "2.prems"(3) consider
      f where "f \<in> set es" "p = path_join top_dir (fst f)"
      | "p \<in> set (cs_paths (os_walk_dirs top_dir es))"
      by (auto simp: cs_paths_Cons)
    then show ?thesis
    proof cases
      case 1
      from "2.prems"(1) have "wf_entries es" by simp
      from wf_entries_member[OF this 1(1)] have "good_name (fst f)" ..
      with 1 "2.prems"(2) show ?thesis by (simp add: path_join_good)
    next
      case 2
      from "2.prems"(1) have we: "wf_entries es" by simp
      from True have "\<not> \<not> ok" by simp
      from "2.IH"[OF this we "2.prems"(2) 2]
      obtain e rest where "e \<in> set es" "p = top_dir @ ''/'' @ fst e @ ''/'' @ rest" by blast
      then show ?thesis by (intro exI[of _ "fst e @ ''/'' @ rest"]) simp
    qed
  qed
next
  case (3 top_dir)
  then show ?case by (simp add: cs_paths_Nil)
next
  case (4 top_dir e es)
  from "4.prems"(1) have g: "good_name (fst e)" and wn: "wf_node (snd e)" and we: "wf_entries es"
    by (auto simp: good_name_def)
  from "4.prems"(3) consider
    "is_dir (snd e)" "p \<in> set (cs_paths (os_walk (path_join top_dir (fst e)) (snd e)))"
    | "p \<in> set (cs_paths (os_walk_dirs top_dir es))"
    by (auto simp: cs_paths_append cs_paths_Nil split: if_splits)
  then show ?case
  proof cases
    case 1
    from "4.IH"(1)[OF 1(1) wn good_top_join[OF "4.prems"(2) g] 1(2)]
    obtain rest where "p = path_join top_dir (fst e) @ ''/'' @ rest" by blast
    then have "p = top_dir @ ''/'' @ fst e @ ''/'' @ rest"
      by (simp add: path_join_good[OF "4.prems"(2) g])
    then show ?thesis by (intro exI[of _ e] exI[of _ rest]) simp
  next
    case 2
    from "4.IH"(2)[OF we "4.prems"(2) 2]
    obtain e' rest where "e' \<in> set es" "p = top_dir @ ''/'' @ fst e' @ ''/'' @ rest" by blast
    then show ?thesis by (intro exI[of _ e'] exI[of _ rest]) simp
  qed
qed


lemma path_join_inj:
  assumes "good_top t" and "good_name a" and "good_name b" and "path_join t a = path_join t b"
  shows "a = b"
  using assms by (simp add: path_join_good)

lemma walk_paths_distinct:
  "wf_node n \<Longrightarrow> good_top t \<Longrightarrow> distinct (cs_paths (os_walk t n))"
  "wf_entries es \<Longrightarrow> distinct (map fst es) \<Longrightarrow> good_top t \<Longrightarrow>
     distinct (cs_paths (os_walk_dirs t es))"
proof (induction t n and t es rule: os_walk_os_walk_dirs.induct)
  case (1 top_dir)
  then show ?case by (simp add: cs_paths_Nil)
next
  case (2 top_dir ok es)
  show ?case
  proof (cases ok)
    case False
    then show ?thesis by (simp add: cs_paths_Nil)
  next
    case True
    from "2.prems"(1) have we: "wf_entries es" and dn: "distinct (map fst es)" by simp_all
    define names where
      "names = filter (suffix ''.cs'') (map fst (filter (\<lambda>e. \<not> is_dir (snd e)) es))"
    have good: "good_name f" if "f \<in> set names" for f
    proof -
      from that obtain e where "e \<in> set es" "f = fst e" by (auto simp: names_def)
      with wf_entries_member[OF we] show ?thesis by blast
    qed
    have "distinct names"
      unfolding names_def using dn by (intro distinct_filter distinct_map_filter)
    moreover have "inj_on (path_join top_dir) (set names)"
      by (rule inj_onI) (rule path_join_inj[OF "2.prems"(2)], auto intro: good)
    ultimately have dA: "distinct (map (path_join top_dir) names)"
      by (simp add: distinct_map)
    from True have "\<not> \<not> ok" by simp
    from "2.IH"[OF this we dn "2.prems"(2)]
    have dB: "distinct (cs_paths (os_walk_dirs top_dir es))" .
    have disj: "set (map (path_join top_dir) names) \<inter> set (cs_paths (os_walk_dirs top_dir es)) = {}"
    proof (rule ccontr)
      assume "\<not> ?thesis"
      then obtain p where pA: "p \<in> set (map (path_join top_dir) names)"
        and pB: "p \<in> set (cs_paths (os_walk_dirs top_dir es))" by blast
      from pA obtain f where f: "f \<in> set names" "p = path_join top_dir f" by auto
      from walk_paths_shape(2)[OF we "2.prems"(2) pB]
      obtain e rest where "e \<in> set es" "p = top_dir @ ''/'' @ fst e @ ''/'' @ rest" by blast
      with f path_join_good[OF "2.prems"(2) good[OF f(1)]]
      have "f = fst e @ ''/'' @ rest" by simp
      then have "CHR ''/'' \<in> set f" by simp
      with good[OF f(1)] show False by (simp add: good_name_def)
    qed
    have "cs_paths (os_walk top_dir (Dir ok es))
        = map (path_join top_dir) names @ cs_paths (os_walk_dirs top_dir es)"
      using True by (simp add: cs_paths_Cons names_def)
    with dA dB disj show ?thesis by simp
  qed
next
  case (3 top_dir)
  then show ?case by (simp add: cs_paths_Nil)
next
  case (4 top_dir e es)
  from "4.prems"(1) have g: "good_name (fst e)" and wn: "wf_node (snd e)" and we: "wf_entries es"
    by (auto simp: good_name_def)
  from "4.prems"(2) have dn: "distinct (map fst es)" and fresh: "fst e \<notin> fst ` set es"
    by simp_all
  define C where "C = (if is_dir (snd e)
    then cs_paths (os_walk (path_join top_dir (fst e)) (snd e)) else [])"
  have dC: "distinct C"
    unfolding C_def
    using "4.IH"(1)[OF _ wn good_top_join[OF "4.prems"(3) g]] by simp
  have dD: "distinct (cs_paths (os_walk_dirs top_dir es))"
    by (rule "4.IH"(2)[OF we dn "4.prems"(3)])
  have disj: "set C \<inter> set (cs_paths (os_walk_dirs top_dir es)) = {}"
  proof (rule ccontr)
    assume "\<not> ?thesis"
    then obtain p where pC: "p \<in> set C"
      and pD: "p \<in> set (cs_paths (os_walk_dirs top_dir es))" by blast
    from pC have "p \<in> set (cs_paths (os_walk (path_join top_dir (fst e)) (snd e)))"
      by (simp add: C_def split: if_splits)
    from walk_paths_shape(1)[OF wn good_top_join[OF "4.prems"(3) g] this]
    obtain rest where "p = path_join top_dir (fst e) @ ''/'' @ rest" by blast
    then have p1: "p = top_dir @ ''/'' @ fst e @ ''/'' @ rest"
      by (simp add: path_join_good[OF "4.prems"(3) g])
    from walk_paths_shape(2)[OF we "4.prems"(3) pD]
    obtain e' rest' where e': "e' \<in> set es" "p = top_dir @ ''/'' @ fst e' @ ''/'' @ rest'"
      by blast
    from wf_entries_member[OF we e'(1)] have g': "good_name (fst e')" ..
    from p1 e'(2) have eq: "fst e @ CHR ''/'' # rest = fst e' @ CHR ''/'' # rest'" by simp
    from g g' have "CHR ''/'' \<notin> set (fst e)" "CHR ''/'' \<notin> set (fst e')"
      by (simp_all add: good_name_def)
    from slash_free_split[OF this eq] have "fst e = fst e'" .
    with e'(1) fresh show False by simp
  qed
  have "cs_paths (os_walk_dirs top_dir (e # es)) = C @ cs_paths (os_walk_dirs top_dir es)"
    by (simp add: C_def cs_paths_append cs_paths_Nil)
  with dC dD disj show ?case by simp
qed

lemma walk_distinct: "wf_root cwd \<Longrightarrow> distinct (cs_paths (walk ''.'' cwd))"
proof (cases cwd)
  case None
  then show ?thesis by (simp add: walk_def cs_paths_Nil)
next
  case (Some n)
  assume "wf_root cwd"
  with Some have "wf_node n" by simp
  moreover have "good_top ''.''" by (simp add: good_top_def)
  ultimately have "distinct (cs_paths (os_walk ''.'' n))" by (rule walk_paths_distinct(1))
  with Some show ?thesis by (simp add: walk_def)
qed

lemma join_parts_append:
  "rel \<noteq> [] \<Longrightarrow> join_parts (xs @ rel)
     = (if xs = [] then join_parts rel else join_parts xs @ ''/'' @ join_parts rel)"
proof (induction xs rule: join_parts.induct)
  case 1
  then show ?case by simp
next
  case (2 p)
  then show ?case by (cases rel) simp_all
next
  case (3 p q ps)
  then show ?case by simp
qed

lemma join_parts_inj:
  assumes "rel1 \<noteq> []" and "rel2 \<noteq> []"
    and "\<forall>x\<in>set rel1. good_name x" and "\<forall>x\<in>set rel2. good_name x"
    and "join_parts rel1 = join_parts rel2"
  shows "rel1 = rel2"
  using assms
proof (induction rel1 arbitrary: rel2 rule: join_parts.induct)
  case 1
  then show ?case by simp
next
  case (2 a)
  show ?case
  proof (cases rel2 rule: join_parts.cases)
    case 1
    with "2.prems" show ?thesis by simp
  next
    case (2 b)
    with "2.prems" show ?thesis by simp
  next
    case (3 b c r)
    with "2.prems"(5) have "a = b @ ''/'' @ join_parts (c # r)" by simp
    then have "CHR ''/'' \<in> set a" by simp
    with "2.prems"(3) show ?thesis by (simp add: good_name_def)
  qed
next
  case (3 a a2 r1)
  show ?case
  proof (cases rel2 rule: join_parts.cases)
    case 1
    with "3.prems" show ?thesis by simp
  next
    case (2 b)
    with "3.prems"(5) have "b = a @ ''/'' @ join_parts (a2 # r1)" by simp
    then have "CHR ''/'' \<in> set b" by simp
    with "3.prems"(4) 2 show ?thesis by (simp add: good_name_def)
  next
    case (3 b b2 r2)
    with "3.prems"(5) have eq: "a @ CHR ''/'' # join_parts (a2 # r1)
        = b @ CHR ''/'' # join_parts (b2 # r2)" by simp
    from "3.prems"(3,4) 3 have "CHR ''/'' \<notin> set a" "CHR ''/'' \<notin> set b"
      by (simp_all add: good_name_def)
    from slash_free_split[OF this eq] have ab: "a = b" .
    with eq have "join_parts (a2 # r1) = join_parts (b2 # r2)" by simp
    with "3.IH"[of "b2 # r2"] "3.prems"(3,4) 3 have "a2 # r1 = b2 # r2" by simp
    with ab 3 show ?thesis by simp
  qed
qed

lemma str_path_append:
  "\<exists>pre. \<forall>rel'. rel' \<noteq> [] \<longrightarrow> (\<forall>x\<in>set rel'. good_name x) \<longrightarrow>
     str_path (sd @ rel') = pre @ join_parts rel'"
proof (cases sd)
  case Nil
  have "str_path ([] @ rel') = [] @ join_parts rel'"
    if "rel' \<noteq> []" "\<forall>x\<in>set rel'. good_name x" for rel'
    using that by (cases rel') (auto simp: str_path_def good_name_def)
  with Nil show ?thesis by blast
next
  case (Cons p qs)
  show ?thesis
  proof (cases "p = ''/''")
    case True
    have "str_path (sd @ rel')
        = (''/'' @ (if qs = [] then [] else join_parts qs @ ''/'')) @ join_parts rel'"
      if "rel' \<noteq> []" for rel'
      using that Cons True by (simp add: str_path_def join_parts_append)
    then show ?thesis by blast
  next
    case False
    have "str_path (sd @ rel') = (join_parts sd @ ''/'') @ join_parts rel'"
      if "rel' \<noteq> []" for rel'
      using that Cons False join_parts_append[of rel' sd] by (simp add: str_path_def)
    then show ?thesis by blast
  qed
qed


lemma rglob_shape:
  "wf_node n \<Longrightarrow> p \<in> set (rglob_cs base n) \<Longrightarrow>
     \<exists>rel. p = base @ rel \<and> rel \<noteq> [] \<and> (\<forall>x\<in>set rel. good_name x)"
  "wf_entries es \<Longrightarrow> p \<in> set (rglob_cs_dirs base es) \<Longrightarrow>
     \<exists>e rel. e \<in> set es \<and> p = base @ fst e # rel \<and> rel \<noteq> [] \<and>
       (\<forall>x\<in>set rel. good_name x)"
proof (induction base n and base es arbitrary: p and p rule: rglob_cs_rglob_cs_dirs.induct)
  case (1 base)
  then show ?case by simp
next
  case (2 base ok es)
  show ?case
  proof (cases ok)
    case False
    with 2 show ?thesis by simp
  next
    case True
    from "2.prems"(1) have we: "wf_entries es" by simp
    from True "2.prems"(2) consider
      f where "f \<in> set es" "p = base @ [fst f]"
      | "p \<in> set (rglob_cs_dirs base es)"
      by auto
    then show ?thesis
    proof cases
      case 1
      from wf_entries_member[OF we 1(1)] have "good_name (fst f)" ..
      with 1 show ?thesis by (intro exI[of _ "[fst f]"]) simp
    next
      case 2
      from True have "\<not> \<not> ok" by simp
      from "2.IH"[OF this we 2]
      obtain e rel where e: "e \<in> set es" "p = base @ fst e # rel" "rel \<noteq> []"
        "\<forall>x\<in>set rel. good_name x" by blast
      from wf_entries_member[OF we e(1)] have "good_name (fst e)" ..
      with e show ?thesis by (intro exI[of _ "fst e # rel"]) simp
    qed
  qed
next
  case (3 base)
  then show ?case by simp
next
  case (4 base e es)
  from "4.prems"(1) have g: "good_name (fst e)" and wn: "wf_node (snd e)" and we: "wf_entries es"
    by (auto simp: good_name_def)
  from "4.prems"(2) consider
    "is_dir (snd e)" "p \<in> set (rglob_cs (base @ [fst e]) (snd e))"
    | "p \<in> set (rglob_cs_dirs base es)"
    by (auto split: if_splits)
  then show ?case
  proof cases
    case 1
    from "4.IH"(1)[OF 1(1) wn 1(2)]
    obtain rel where "p = (base @ [fst e]) @ rel" "rel \<noteq> []" "\<forall>x\<in>set rel. good_name x"
      by blast
    then show ?thesis by (intro exI[of _ e] exI[of _ rel]) simp
  next
    case 2
    from "4.IH"(2)[OF we 2]
    obtain e' rel where "e' \<in> set es" "p = base @ fst e' # rel" "rel \<noteq> []"
      "\<forall>x\<in>set rel. good_name x" by blast
    then show ?thesis by (intro exI[of _ e'] exI[of _ rel]) simp
  qed
qed

lemma rglob_parts_distinct:
  "wf_node n \<Longrightarrow> distinct (rglob_cs base n)"
  "wf_entries es \<Longrightarrow> distinct (map fst es) \<Longrightarrow> distinct (rglob_cs_dirs base es)"
proof (induction base n and base es rule: rglob_cs_rglob_cs_dirs.induct)
  case (1 base)
  then show ?case by simp
next
  case (2 base ok es)
  show ?case
  proof (cases ok)
    case False
    then show ?thesis by simp
  next
    case True
    from "2.prems"(1) have we: "wf_entries es" and dn: "distinct (map fst es)" by simp_all
    define A where "A = map (\<lambda>e. base @ [fst e]) (filter (\<lambda>e. suffix ''.cs'' (fst e)) es)"
    have "distinct (map fst (filter (\<lambda>e. suffix ''.cs'' (fst e)) es))"
      using dn by (rule distinct_map_filter)
    then have "distinct (map (\<lambda>n. base @ [n]) (map fst (filter (\<lambda>e. suffix ''.cs'' (fst e)) es)))"
      by (simp add: distinct_map inj_on_def)
    then have dA: "distinct A" by (simp add: A_def comp_def)
    from True have "\<not> \<not> ok" by simp
    from "2.IH"[OF this we dn] have dB: "distinct (rglob_cs_dirs base es)" .
    have disj: "set A \<inter> set (rglob_cs_dirs base es) = {}"
    proof (rule ccontr)
      assume "\<not> ?thesis"
      then obtain p where pA: "p \<in> set A" and pB: "p \<in> set (rglob_cs_dirs base es)" by blast
      from pA have "length p = Suc (length base)" by (auto simp: A_def)
      moreover from rglob_shape(2)[OF we pB] have "length p > Suc (length base)" by auto
      ultimately show False by simp
    qed
    have "rglob_cs base (Dir ok es) = A @ rglob_cs_dirs base es"
      using True by (simp add: A_def)
    with dA dB disj show ?thesis by simp
  qed
next
  case (3 base)
  then show ?case by simp
next
  case (4 base e es)
  from "4.prems"(1) have g: "good_name (fst e)" and wn: "wf_node (snd e)" and we: "wf_entries es"
    by (auto simp: good_name_def)
  from "4.prems"(2) have dn: "distinct (map fst es)" and fresh: "fst e \<notin> fst ` set es"
    by simp_all
  define C where "C = (if is_dir (snd e) then rglob_cs (base @ [fst e]) (snd e) else [])"
  have dC: "distinct C"
    unfolding C_def using "4.IH"(1)[OF _ wn] by simp
  have dD: "distinct (rglob_cs_dirs base es)" by (rule "4.IH"(2)[OF we dn])
  have disj: "set C \<inter> set (rglob_cs_dirs base es) = {}"
  proof (rule ccontr)
    assume "\<not> ?thesis"
    then obtain p where pC: "p \<in> set C" and pD: "p \<in> set (rglob_cs_dirs base es)" by blast
    from pC have "p \<in> set (rglob_cs (base @ [fst e]) (snd e))"
      by (simp add: C_def split: if_splits)
    from rglob_shape(1)[OF wn this] obtain rel where "p = (base @ [fst e]) @ rel" by blast
    moreover from rglob_shape(2)[OF we pD]
    obtain e' rel' where "e' \<in> set es" "p = base @ fst e' # rel'" by blast
    ultimately have "fst e = fst e'" "e' \<in> set es" by simp_all
    with fresh show False by simp
  qed
  have "rglob_cs_dirs base (e # es) = C @ rglob_cs_dirs base es" by (simp add: C_def)
  with dC dD disj show ?case by simp
qed

lemma rglob_distinct:
  assumes "wf_root root"
  shows "distinct (map str_path (rglob script_dir root))"
proof (cases root)
  case None
  then show ?thesis by (simp add: rglob_def)
next
  case (Some n)
  with assms have wn: "wf_node n" by simp
  obtain pre where pre: "\<And>rel. rel \<noteq> [] \<Longrightarrow> (\<forall>x\<in>set rel. good_name x) \<Longrightarrow>
      str_path (script_dir @ rel) = pre @ join_parts rel"
    using str_path_append[of script_dir] by blast
  have "inj_on str_path (set (rglob_cs script_dir n))"
  proof (rule inj_onI)
    fix p q assume p: "p \<in> set (rglob_cs script_dir n)" and q: "q \<in> set (rglob_cs script_dir n)"
      and eq: "str_path p = str_path q"
    from rglob_shape(1)[OF wn p] obtain r1 where r1: "p = script_dir @ r1" "r1 \<noteq> []"
      "\<forall>x\<in>set r1. good_name x" by blast
    from rglob_shape(1)[OF wn q] obtain r2 where r2: "q = script_dir @ r2" "r2 \<noteq> []"
      "\<forall>x\<in>set r2. good_name x" by blast
    from eq r1 r2 have "join_parts r1 = join_parts r2" by (simp add: pre)
    from join_parts_inj[OF r1(2) r2(2) r1(3) r2(3) this] r1(1) r2(1) show "p = q" by simp
  qed
  with rglob_parts_distinct(1)[OF wn] have "distinct (map str_path (rglob_cs script_dir n))"
    by (simp add: distinct_map)
  with Some show ?thesis by (simp add: rglob_def)
qed

section \<open>The claims about the rule list\<close>

text \<open>
  C1. The result of \<open>apply_rules\<close> is the left fold of \<open>rule_step\<close> over the rules in
  list order, so each rule works on the output of the rules before it; with the rules of
  the scripts it is defined on every text; the three
  assignments of \<^verbatim>\<open>fix-ns.py\<close> give the same text as the loop over \<open>replacements\<close>;
  and each step on the whole buffer replaces all non-overlapping matches of the pattern of
  its rule, from the left, by the replacement of that rule.
\<close>

theorem apply_rules_left_fold:
  "apply_rules buf rules = foldl (\<lambda>b rule. rule_step rule b) (Some buf) rules \<and>
   (\<exists>out. apply_rules buf replacements = Some out) \<and>
   fix_ns_replacements buf = apply_rules buf replacements \<and>
   (\<forall>rule\<in>set replacements. \<exists>as out.
      re_compile (fst rule) = Some as \<and> re_sub (fst rule) (snd rule) buf = Some out \<and>
      replaced_all as (snd rule) buf out)"
proof (intro conjI ballI)
  show "apply_rules buf rules = foldl (\<lambda>b rule. rule_step rule b) (Some buf) rules"
    by (simp add: apply_rules_fold foldl_conv_fold)
  show "\<exists>out. apply_rules buf replacements = Some out"
    by (simp add: apply_rules_rewrite)
  show "fix_ns_replacements buf = apply_rules buf replacements"
    by (simp add: fix_ns_replacements_rewrite apply_rules_rewrite)
  fix rule assume "rule \<in> set replacements"
  then consider "rule = (pattern1, new1)" | "rule = (pattern2, new2)" | "rule = (pattern3, new3)"
    by (auto simp: replacements_eq)
  then show "\<exists>as out. re_compile (fst rule) = Some as \<and>
      re_sub (fst rule) (snd rule) buf = Some out \<and> replaced_all as (snd rule) buf out"
  proof cases
    case 1
    have "replaced_all (map Lit old1) new1 buf (sub_atoms (map Lit old1) new1 buf)"
      by (rule sub_atoms_replaced_all) (simp add: olds_news_nonempty)
    with 1 show ?thesis by (simp add: compile1 re_sub_def template1)
  next
    case 2
    have "replaced_all (map Lit old2) new2 buf (sub_atoms (map Lit old2) new2 buf)"
      by (rule sub_atoms_replaced_all) (simp add: olds_news_nonempty)
    with 2 show ?thesis by (simp add: compile2 re_sub_def template2)
  next
    case 3
    have "replaced_all (map Lit old3) new3 buf (sub_atoms (map Lit old3) new3 buf)"
      by (rule sub_atoms_replaced_all) (simp add: olds_news_nonempty)
    with 3 show ?thesis by (simp add: compile3 re_sub_def template3)
  qed
qed

theorem apply_rules_left_fold_witness:
  "(pattern3, new3) \<in> set replacements \<and>
   apply_rules (''// '' @ old3) replacements
     = foldl (\<lambda>b rule. rule_step rule b) (Some (''// '' @ old3)) replacements \<and>
   (\<exists>as. re_compile pattern3 = Some as \<and>
      replaced_all as new3 (''// '' @ old3) (''// '' @ new3))"
proof -
  have mem: "(pattern3, new3) \<in> set replacements" by (simp add: replacements_eq)
  have ev: "re_sub pattern3 new3 (''// '' @ old3) = Some (''// '' @ new3)" by code_simp
  from apply_rules_left_fold[of "''// '' @ old3" replacements] mem
  obtain as out where "re_compile pattern3 = Some as"
    "re_sub pattern3 new3 (''// '' @ old3) = Some out" "replaced_all as new3 (''// '' @ old3) out"
    by fastforce
  with ev have "\<exists>as. re_compile pattern3 = Some as \<and>
      replaced_all as new3 (''// '' @ old3) (''// '' @ new3)" by auto
  with mem apply_rules_left_fold[of "''// '' @ old3" replacements] show ?thesis by blast
qed

text \<open>
  C2. With the three rules of the scripts, applying the rules to the result of applying
  them gives that result again: the rewriting is defined on every text and idempotent, in
  the loop of \<^verbatim>\<open>fix-namespaces.py\<close> and in the three assignments of \<^verbatim>\<open>fix-ns.py\<close>.
\<close>

theorem apply_rules_idempotent:
  "\<exists>u. apply_rules t replacements = Some u \<and> apply_rules u replacements = Some u \<and>
       fix_ns_replacements t = Some u \<and> fix_ns_replacements u = Some u"
  by (simp add: apply_rules_rewrite fix_ns_replacements_rewrite rewrite_idem)

text \<open>
  C9. Each of the three patterns compiles to a sequence of literal characters only (every
  dot is escaped), such a sequence matches exactly where its literal string begins the
  text, and applying the rules is the same as three plain \<^verbatim>\<open>str.replace\<close> calls with those
  literal strings, one after the other.
\<close>

theorem patterns_are_escaped_literals:
  "map (\<lambda>rule. re_compile (fst rule)) replacements
     = [Some (map Lit old1), Some (map Lit old2), Some (map Lit old3)] \<and>
   match_here (map Lit old) s = prefix old s \<and>
   apply_rules t replacements
     = Some (str_replace (str_replace (str_replace t old1 new1) old2 new2) old3 new3) \<and>
   fix_ns_replacements t
     = Some (str_replace (str_replace (str_replace t old1 new1) old2 new2) old3 new3)"
proof (intro conjI)
  show "map (\<lambda>rule. re_compile (fst rule)) replacements
     = [Some (map Lit old1), Some (map Lit old2), Some (map Lit old3)]"
    by (simp add: replacements_eq compile1 compile2 compile3)
  show "match_here (map Lit old) s = prefix old s"
    by (rule match_here_lits)
  show "apply_rules t replacements
     = Some (str_replace (str_replace (str_replace t old1 new1) old2 new2) old3 new3)"
    by (simp add: apply_rules_rewrite rewrite_def)
  show "fix_ns_replacements t
     = Some (str_replace (str_replace (str_replace t old1 new1) old2 new2) old3 new3)"
    by (simp add: fix_ns_replacements_rewrite rewrite_def)
qed

text \<open>
  C10. Applying the three rules in any order gives the same text as the order of the
  scripts. No two of the three literal patterns can share a character of a text, and no
  rule changes the replacement text of any rule.
\<close>

theorem rule_order_irrelevant:
  assumes "mset rules = mset replacements"
  shows "apply_rules t rules = apply_rules t replacements \<and>
    overlap_free old1 old2 \<and> overlap_free old1 old3 \<and> overlap_free old2 old3 \<and>
    (\<forall>rule\<in>set replacements. \<forall>rule'\<in>set replacements.
       re_sub (fst rule) (snd rule) (snd rule') = Some (snd rule'))"
  using apply_rules_permuted[OF assms] old1_clear_of_old2 old1_clear_of_old3 old2_clear_of_old3 replacement_untouched by blast

theorem rule_order_irrelevant_witness:
  "mset [(pattern3, new3), (pattern1, new1), (pattern2, new2)] = mset replacements \<and>
   apply_rules (old2 @ old3 @ old1) [(pattern3, new3), (pattern1, new1), (pattern2, new2)]
     = apply_rules (old2 @ old3 @ old1) replacements \<and>
   apply_rules (old2 @ old3 @ old1) replacements = Some (new2 @ new3 @ new1)"
proof -
  have m: "mset [(pattern3, new3), (pattern1, new1), (pattern2, new2)] = mset replacements"
    by (simp add: replacements_eq)
  have "apply_rules (old2 @ old3 @ old1) replacements = Some (new2 @ new3 @ new1)"
    by code_simp
  with m rule_order_irrelevant[OF m, of "old2 @ old3 @ old1"] show ?thesis by simp
qed

section \<open>The claims about files\<close>

text \<open>
  C3. When no rule pattern matches anywhere in the text read from a file, \<open>fix_file\<close>
  returns \<open>False\<close> and leaves the world as it was: nothing is written and nothing is
  printed. The loop body of \<^verbatim>\<open>fix-namespaces.py\<close> leaves the world as it was too, and after
  a whole run of either script the file on disk is the one from before.
\<close>

theorem no_match_no_write:
  assumes "read_text w path = Inr content"
    and "\<forall>rule\<in>set replacements. \<not> matches_in (fst rule) content"
    and "str_path cs_file = path"
  shows "fix_file path w = Some (False, w) \<and>
    process_file script_dir cs_file w = Some w \<and>
    (wf_root cwd \<longrightarrow>
       (\<exists>w'. main_ns cwd w = Some (0, w') \<and> disk w' path = disk w path)) \<and>
    (wf_root root \<longrightarrow>
       (\<exists>w'. main_namespaces script_dir root w = Some (0, w') \<and> disk w' path = disk w path))"
proof -
  have fixed: "rewrite content = content"
    using assms(2) by (simp add: no_rule_matches rewrite_fixed)
  have o: "outcome w path = Unchanged" using assms(1) fixed by (rule outcome_unchanged)
  have same: "file_after w path = disk w path" by (simp add: file_after_def o)
  have after: "disk_after w ps path = disk w path" for ps
    by (simp add: disk_after_def same)
  have "fix_file path w = Some (False, w)" by (simp add: fix_file_outcome o)
  moreover have "process_file script_dir cs_file w = Some w"
    using assms(1,3) fixed by (simp add: process_file_def apply_rules_rewrite)
  moreover have "\<exists>w'. main_ns cwd w = Some (0, w') \<and> disk w' path = disk w path"
    if "wf_root cwd"
    using main_ns_distinct[OF walk_distinct[OF that], of w] after by simp
  moreover have "\<exists>w'. main_namespaces script_dir root w = Some (0, w') \<and>
      disk w' path = disk w path"
    if "wf_root root"
    using main_namespaces_distinct[of script_dir root w, OF rglob_distinct[OF that]] after by simp
  ultimately show ?thesis by blast
qed

theorem no_match_no_write_witness:
  "read_text (sample_world (Inr ''class A {}'')) ''./a.cs'' = Inr ''class A {}'' \<and>
   \<not> matches_in pattern1 ''class A {}'' \<and> \<not> matches_in pattern2 ''class A {}'' \<and>
   \<not> matches_in pattern3 ''class A {}'' \<and>
   str_path [''.'', ''a.cs''] = ''./a.cs'' \<and>
   wf_root sample_root \<and>
   fix_file ''./a.cs'' (sample_world (Inr ''class A {}''))
     = Some (False, sample_world (Inr ''class A {}'')) \<and>
   process_file [''.''] [''.'', ''a.cs''] (sample_world (Inr ''class A {}''))
     = Some (sample_world (Inr ''class A {}'')) \<and>
   (\<exists>w'. main_ns sample_root (sample_world (Inr ''class A {}'')) = Some (0, w') \<and>
      disk w' ''./a.cs'' = disk (sample_world (Inr ''class A {}'')) ''./a.cs'') \<and>
   (\<exists>w'. main_namespaces [''.''] sample_root (sample_world (Inr ''class A {}'')) = Some (0, w') \<and>
      disk w' ''./a.cs'' = disk (sample_world (Inr ''class A {}'')) ''./a.cs'')"
proof -
  have h1: "read_text (sample_world (Inr ''class A {}'')) ''./a.cs'' = Inr ''class A {}''"
    by code_simp
  have n: "\<not> matches_in pattern1 ''class A {}''" "\<not> matches_in pattern2 ''class A {}''"
    "\<not> matches_in pattern3 ''class A {}''"
    by code_simp+
  then have h2: "\<forall>rule\<in>set replacements. \<not> matches_in (fst rule) ''class A {}''"
    by (simp add: replacements_eq)
  have h3: "str_path [''.'', ''a.cs''] = ''./a.cs''" by code_simp
  have h4: "wf_root sample_root" by code_simp
  have h5: "wf_root sample_root" by code_simp
  from no_match_no_write[OF h1 h2 h3, of "[''.'']" sample_root sample_root] h1 n h3 h4 h5
  show ?thesis by blast
qed

text \<open>
  C4. When line \<open>i\<close> of the text read from a file is
  \<^verbatim>\<open>using Core.Libraries.Application.Commands;\<close>, the file can be written and the line
  separator of the system is \<^verbatim>\<open>\n\<close> or \<^verbatim>\<open>\r\n\<close>, then \<open>fix_file\<close> returns \<open>True\<close> and
  line \<open>i\<close> of the file reads \<^verbatim>\<open>using Core.LibrariesApplication.Commands;\<close> afterwards. After
  a run of \<^verbatim>\<open>fix-ns.py\<close> that finds the file the same holds and the file is among those the
  printed count counts; \<^verbatim>\<open>fix-namespaces.py\<close> prints a \<^verbatim>\<open>Fixed:\<close> line for it.
\<close>

theorem commands_line_rewritten:
  assumes "line_reads w path i old1"
    and "write_error (disk w path) = None"
    and "os_linesep w = [LF] \<or> os_linesep w = [CR, LF]"
  shows "(\<exists>w'. fix_file path w = Some (True, w') \<and> line_reads w' path i new1) \<and>
    (path \<in> set (cs_paths (walk ''.'' cwd)) \<and> wf_root cwd \<longrightarrow>
       (\<exists>w'. main_ns cwd w = Some (0, w') \<and> line_reads w' path i new1 \<and>
          is_changed (outcome w path) \<and>
          stdout w' = stdout w @
            [''Fixed '' @ str_nat (length (filter (\<lambda>p. is_changed (outcome w p))
                                      (cs_paths (walk ''.'' cwd)))) @ '' files''])) \<and>
    (str_path cs_file = path \<and> prefix script_dir cs_file \<longrightarrow>
       (\<exists>w'. process_file script_dir cs_file w = Some w' \<and> line_reads w' path i new1 \<and>
          stdout w' = stdout w @ [''Fixed: '' @ str_path (drop (length script_dir) cs_file)])) \<and>
    (str_path cs_file = path \<and> cs_file \<in> set (rglob script_dir root) \<and>
     wf_root root \<longrightarrow>
       (\<exists>w'. main_namespaces script_dir root w = Some (0, w') \<and> line_reads w' path i new1 \<and>
          ''Fixed: '' @ str_path (drop (length script_dir) cs_file) \<in> set (stdout w')))"
proof -
  have "rewrite old1 \<noteq> old1" by (simp add: rewrite_lines) code_simp
  with assms(1) obtain content where c: "read_text w path = Inr content"
    "rewrite content \<noteq> content" "i < length (split_lines (rewrite content))"
    "split_lines (rewrite content) ! i = rewrite old1"
    by (rule line_reads_rewrite)
  have lr: "line_reads w' path i new1" if "read_text w' path = Inr (rewrite content)" for w'
    using that c(3,4) by (intro line_reads_after) (simp_all add: rewrite_lines)
  note hyps = c(1,2) assms(2,3)
  have "\<exists>w'. fix_file path w = Some (True, w') \<and> line_reads w' path i new1"
    using changed_fix_file[OF hyps] lr by blast
  moreover have "\<exists>w'. main_ns cwd w = Some (0, w') \<and> line_reads w' path i new1 \<and>
          is_changed (outcome w path) \<and>
          stdout w' = stdout w @
            [''Fixed '' @ str_nat (length (filter (\<lambda>p. is_changed (outcome w p))
                                      (cs_paths (walk ''.'' cwd)))) @ '' files'']"
    if "path \<in> set (cs_paths (walk ''.'' cwd))" "wf_root cwd"
    using changed_main_ns[OF hyps that(1) walk_distinct[OF that(2)]] lr by blast
  moreover have "\<exists>w'. process_file script_dir cs_file w = Some w' \<and>
          line_reads w' path i new1 \<and>
          stdout w' = stdout w @ [''Fixed: '' @ str_path (drop (length script_dir) cs_file)]"
    if "str_path cs_file = path" "prefix script_dir cs_file"
    using changed_process_file[OF hyps that] lr by blast
  moreover have "\<exists>w'. main_namespaces script_dir root w = Some (0, w') \<and>
          line_reads w' path i new1 \<and>
          ''Fixed: '' @ str_path (drop (length script_dir) cs_file) \<in> set (stdout w')"
    if "str_path cs_file = path" "cs_file \<in> set (rglob script_dir root)"
      "wf_root root"
    using changed_main_namespaces[OF hyps that(1,2) rglob_distinct[OF that(3)]] lr by blast
  ultimately show ?thesis by blast
qed


theorem commands_line_rewritten_witness:
  "line_reads (sample_world (Inr (sample_text old1))) ''./a.cs'' 1 old1 \<and>
   write_error (disk (sample_world (Inr (sample_text old1))) ''./a.cs'') = None \<and>
   os_linesep (sample_world (Inr (sample_text old1))) = [LF] \<and>
   ''./a.cs'' \<in> set (cs_paths (walk ''.'' sample_root)) \<and>
   wf_root sample_root \<and>
   str_path [''.'', ''a.cs''] = ''./a.cs'' \<and> prefix [''.''] [''.'', ''a.cs''] \<and>
   [''.'', ''a.cs''] \<in> set (rglob [''.''] sample_root) \<and>
   (\<exists>w'. fix_file ''./a.cs'' (sample_world (Inr (sample_text old1))) = Some (True, w') \<and>
      line_reads w' ''./a.cs'' 1 new1) \<and>
   (\<exists>w'. main_ns sample_root (sample_world (Inr (sample_text old1))) = Some (0, w') \<and>
      line_reads w' ''./a.cs'' 1 new1 \<and> stdout w' = [''Fixed 1 files'']) \<and>
   (\<exists>w'. process_file [''.''] [''.'', ''a.cs''] (sample_world (Inr (sample_text old1))) = Some w' \<and>
      line_reads w' ''./a.cs'' 1 new1 \<and> stdout w' = [''Fixed: a.cs'']) \<and>
   (\<exists>w'. main_namespaces [''.''] sample_root (sample_world (Inr (sample_text old1))) = Some (0, w') \<and>
      line_reads w' ''./a.cs'' 1 new1 \<and> ''Fixed: a.cs'' \<in> set (stdout w'))"
proof -
  let ?w = "sample_world (Inr (sample_text old1))"
  have h1: "line_reads ?w ''./a.cs'' 1 old1" by code_simp
  have h2: "write_error (disk ?w ''./a.cs'') = None" by (simp add: sample_world_def)
  have h3: "os_linesep ?w = [LF]" by (simp add: sample_world_def)
  have h4: "''./a.cs'' \<in> set (cs_paths (walk ''.'' sample_root))" by code_simp
  have h5: "wf_root sample_root" by code_simp
  have h6: "str_path [''.'', ''a.cs''] = ''./a.cs''" by code_simp
  have h7: "prefix [''.''] [''.'', ''a.cs'']" by simp
  have h8: "[''.'', ''a.cs''] \<in> set (rglob [''.''] sample_root)" by code_simp
  have h9: "wf_root sample_root" by code_simp
  have e1: "stdout ?w = []" by (simp add: sample_world_def)
  have e2: "''Fixed '' @ str_nat (length (filter (\<lambda>p. is_changed (outcome ?w p))
      (cs_paths (walk ''.'' sample_root)))) @ '' files'' = ''Fixed 1 files''" by code_simp
  have e3: "''Fixed: '' @ str_path (drop (length [''.'']) [''.'', ''a.cs'']) = ''Fixed: a.cs''"
    by code_simp
  from commands_line_rewritten[OF h1 h2 disjI1[OF h3],
      of sample_root "[''.'', ''a.cs'']" "[''.'']" sample_root]
    h4 h5 h6 h7 h8 h9
  have "(\<exists>w'. fix_file ''./a.cs'' ?w = Some (True, w') \<and> line_reads w' ''./a.cs'' 1 new1) \<and>
    (\<exists>w'. main_ns sample_root ?w = Some (0, w') \<and> line_reads w' ''./a.cs'' 1 new1 \<and>
          is_changed (outcome ?w ''./a.cs'') \<and>
          stdout w' = stdout ?w @
            [''Fixed '' @ str_nat (length (filter (\<lambda>p. is_changed (outcome ?w p))
                                      (cs_paths (walk ''.'' sample_root)))) @ '' files'']) \<and>
    (\<exists>w'. process_file [''.''] [''.'', ''a.cs''] ?w = Some w' \<and> line_reads w' ''./a.cs'' 1 new1 \<and>
          stdout w' = stdout ?w @ [''Fixed: '' @ str_path (drop (length [''.'']) [''.'', ''a.cs''])]) \<and>
    (\<exists>w'. main_namespaces [''.''] sample_root ?w = Some (0, w') \<and> line_reads w' ''./a.cs'' 1 new1 \<and>
          ''Fixed: '' @ str_path (drop (length [''.'']) [''.'', ''a.cs'']) \<in> set (stdout w'))"
    by blast
  then have "(\<exists>w'. fix_file ''./a.cs'' ?w = Some (True, w') \<and> line_reads w' ''./a.cs'' 1 new1) \<and>
    (\<exists>w'. main_ns sample_root ?w = Some (0, w') \<and> line_reads w' ''./a.cs'' 1 new1 \<and>
          stdout w' = [''Fixed 1 files'']) \<and>
    (\<exists>w'. process_file [''.''] [''.'', ''a.cs''] ?w = Some w' \<and> line_reads w' ''./a.cs'' 1 new1 \<and>
          stdout w' = [''Fixed: a.cs'']) \<and>
    (\<exists>w'. main_namespaces [''.''] sample_root ?w = Some (0, w') \<and> line_reads w' ''./a.cs'' 1 new1 \<and>
          ''Fixed: a.cs'' \<in> set (stdout w'))"
    unfolding e1 e2 e3 append_Nil by blast
  with h1 h2 h3 h4 h5 h6 h7 h8 h9 show ?thesis by blast
qed

text \<open>
  C5. When the text read from a file is \<open>pre\<close>, then
  \<^verbatim>\<open>using Techleap.Core.Domain.Exceptions;\<close>, then \<open>post\<close>, and no rule pattern matches in
  \<open>pre\<close> or in \<open>post\<close>, then after \<open>fix_file\<close>, after the loop body of
  \<^verbatim>\<open>fix-namespaces.py\<close> and after a run of either script that finds the file, the file reads
  \<open>pre\<close>, then \<^verbatim>\<open>using Core.Libraries.Domain.Exceptions;\<close>, then \<open>post\<close>.
\<close>

theorem exceptions_using_rewritten:
  assumes "read_text w path = Inr (pre @ old3 @ post)"
    and "\<forall>rule\<in>set replacements. \<not> matches_in (fst rule) pre \<and> \<not> matches_in (fst rule) post"
    and "write_error (disk w path) = None"
    and "os_linesep w = [LF] \<or> os_linesep w = [CR, LF]"
  shows "(\<exists>w'. fix_file path w = Some (True, w') \<and>
            read_text w' path = Inr (pre @ new3 @ post)) \<and>
    (path \<in> set (cs_paths (walk ''.'' cwd)) \<and> wf_root cwd \<longrightarrow>
       (\<exists>w'. main_ns cwd w = Some (0, w') \<and> read_text w' path = Inr (pre @ new3 @ post))) \<and>
    (str_path cs_file = path \<and> prefix script_dir cs_file \<longrightarrow>
       (\<exists>w'. process_file script_dir cs_file w = Some w' \<and>
          read_text w' path = Inr (pre @ new3 @ post))) \<and>
    (str_path cs_file = path \<and> cs_file \<in> set (rglob script_dir root) \<and>
     wf_root root \<longrightarrow>
       (\<exists>w'. main_namespaces script_dir root w = Some (0, w') \<and>
          read_text w' path = Inr (pre @ new3 @ post)))"
proof -
  from assms(2) have "\<forall>rule\<in>set replacements. \<not> matches_in (fst rule) pre"
    and "\<forall>rule\<in>set replacements. \<not> matches_in (fst rule) post" by blast+
  then have "rewrite pre = pre" "rewrite post = post"
    unfolding no_rule_matches by (simp_all add: rewrite_fixed)
  then have r: "rewrite (pre @ old3 @ post) = pre @ new3 @ post"
    by (simp add: rewrite_old3)
  have ne: "rewrite (pre @ old3 @ post) \<noteq> pre @ old3 @ post"
    by (rule rewrite_changes) simp
  note hyps = assms(1) ne assms(3,4)
  have "\<exists>w'. fix_file path w = Some (True, w') \<and> read_text w' path = Inr (pre @ new3 @ post)"
    using changed_fix_file[OF hyps] r by simp
  moreover have "\<exists>w'. main_ns cwd w = Some (0, w') \<and>
      read_text w' path = Inr (pre @ new3 @ post)"
    if "path \<in> set (cs_paths (walk ''.'' cwd))" "wf_root cwd"
    using changed_main_ns[OF hyps that(1) walk_distinct[OF that(2)]] r by auto
  moreover have "\<exists>w'. process_file script_dir cs_file w = Some w' \<and>
      read_text w' path = Inr (pre @ new3 @ post)"
    if "str_path cs_file = path" "prefix script_dir cs_file"
    using changed_process_file[OF hyps that] r by auto
  moreover have "\<exists>w'. main_namespaces script_dir root w = Some (0, w') \<and>
      read_text w' path = Inr (pre @ new3 @ post)"
    if "str_path cs_file = path" "cs_file \<in> set (rglob script_dir root)"
      "wf_root root"
    using changed_main_namespaces[OF hyps that(1,2) rglob_distinct[OF that(3)]] r by auto
  ultimately show ?thesis by blast
qed

theorem exceptions_using_rewritten_witness:
  "read_text (sample_world (Inr (''// header'' @ LF # old3 @ LF # ''class A {}''))) ''./a.cs''
     = Inr ((''// header'' @ [LF]) @ old3 @ (LF # ''class A {}'')) \<and>
   \<not> matches_in pattern1 (''// header'' @ [LF]) \<and>
   \<not> matches_in pattern2 (''// header'' @ [LF]) \<and>
   \<not> matches_in pattern3 (''// header'' @ [LF]) \<and>
   \<not> matches_in pattern1 (LF # ''class A {}'') \<and>
   \<not> matches_in pattern2 (LF # ''class A {}'') \<and>
   \<not> matches_in pattern3 (LF # ''class A {}'') \<and>
   write_error (disk (sample_world (Inr (''// header'' @ LF # old3 @ LF # ''class A {}''))) ''./a.cs'')
     = None \<and>
   os_linesep (sample_world (Inr (''// header'' @ LF # old3 @ LF # ''class A {}''))) = [LF] \<and>
   ''./a.cs'' \<in> set (cs_paths (walk ''.'' sample_root)) \<and>
   wf_root sample_root \<and>
   str_path [''.'', ''a.cs''] = ''./a.cs'' \<and> prefix [''.''] [''.'', ''a.cs''] \<and>
   [''.'', ''a.cs''] \<in> set (rglob [''.''] sample_root) \<and>
   (\<exists>w'. fix_file ''./a.cs'' (sample_world (Inr (''// header'' @ LF # old3 @ LF # ''class A {}'')))
        = Some (True, w') \<and>
      read_text w' ''./a.cs'' = Inr ((''// header'' @ [LF]) @ new3 @ (LF # ''class A {}''))) \<and>
   (\<exists>w'. main_ns sample_root (sample_world (Inr (''// header'' @ LF # old3 @ LF # ''class A {}'')))
        = Some (0, w') \<and>
      read_text w' ''./a.cs'' = Inr ((''// header'' @ [LF]) @ new3 @ (LF # ''class A {}''))) \<and>
   (\<exists>w'. process_file [''.''] [''.'', ''a.cs'']
          (sample_world (Inr (''// header'' @ LF # old3 @ LF # ''class A {}''))) = Some w' \<and>
      read_text w' ''./a.cs'' = Inr ((''// header'' @ [LF]) @ new3 @ (LF # ''class A {}''))) \<and>
   (\<exists>w'. main_namespaces [''.''] sample_root
          (sample_world (Inr (''// header'' @ LF # old3 @ LF # ''class A {}''))) = Some (0, w') \<and>
      read_text w' ''./a.cs'' = Inr ((''// header'' @ [LF]) @ new3 @ (LF # ''class A {}'')))"
proof -
  let ?w = "sample_world (Inr (''// header'' @ LF # old3 @ LF # ''class A {}''))"
  have h1: "read_text ?w ''./a.cs'' = Inr ((''// header'' @ [LF]) @ old3 @ (LF # ''class A {}''))"
    by code_simp
  have n: "\<not> matches_in pattern1 (''// header'' @ [LF])"
    "\<not> matches_in pattern2 (''// header'' @ [LF])"
    "\<not> matches_in pattern3 (''// header'' @ [LF])"
    "\<not> matches_in pattern1 (LF # ''class A {}'')"
    "\<not> matches_in pattern2 (LF # ''class A {}'')"
    "\<not> matches_in pattern3 (LF # ''class A {}'')"
    by code_simp+
  then have h2: "\<forall>rule\<in>set replacements. \<not> matches_in (fst rule) (''// header'' @ [LF]) \<and>
      \<not> matches_in (fst rule) (LF # ''class A {}'')"
    by (simp add: replacements_eq)
  have h3: "write_error (disk ?w ''./a.cs'') = None" by (simp add: sample_world_def)
  have h4: "os_linesep ?w = [LF]" by (simp add: sample_world_def)
  have h5: "''./a.cs'' \<in> set (cs_paths (walk ''.'' sample_root))" by code_simp
  have h6: "wf_root sample_root" by code_simp
  have h7: "str_path [''.'', ''a.cs''] = ''./a.cs''" by code_simp
  have h8: "prefix [''.''] [''.'', ''a.cs'']" by simp
  have h9: "[''.'', ''a.cs''] \<in> set (rglob [''.''] sample_root)" by code_simp
  have h10: "wf_root sample_root" by code_simp
  from exceptions_using_rewritten[OF h1 h2 h3 disjI1[OF h4],
      of sample_root "[''.'', ''a.cs'']" "[''.'']" sample_root]
    h1 n h3 h4 h5 h6 h7 h8 h9 h10
  show ?thesis by blast
qed

section \<open>The claims about runs\<close>

text \<open>
  C6. A file that cannot be decoded is caught by both scripts, logged with its path, and the
  run goes on to its end without counting the file. \<^verbatim>\<open>fix-ns.py\<close> prints the error line to
  standard error; \<^verbatim>\<open>fix-namespaces.py\<close> prints it to standard output, between its progress
  lines, and leaves standard error empty. Here both scripts run over a directory with the
  single file \<^verbatim>\<open>a.cs\<close>, which is not valid UTF-8.
\<close>

theorem namespaces_error_line_on_stdout:
  "map_option (\<lambda>(status, w). (stdout w, stderr w))
     (main_namespaces [''repo''] sample_root
        (sample_world (Inl (UnicodeDecodeError ''invalid start byte''))))
     = Some ([''Found 1 C# files to process...'',
              ''Error processing repo/a.cs: invalid start byte'', ''Done!''], []) \<and>
   map_option (\<lambda>(status, w). (stdout w, stderr w))
     (main_ns sample_root (sample_world (Inl (UnicodeDecodeError ''invalid start byte''))))
     = Some ([''Fixed 0 files''], [''Error processing ./a.cs: invalid start byte''])"
  by code_simp

text \<open>
  C7. With a missing root no exception ends the run: both scripts find no file, print
  their summary and end with status 0.
\<close>

theorem missing_root_completes:
  "map_option fst (main_ns None (sample_world (Inr []))) = Some 0 \<and>
   map_option (stdout \<circ> snd) (main_ns None (sample_world (Inr []))) = Some [''Fixed 0 files''] \<and>
   map_option fst (main_namespaces [''repo''] None (sample_world (Inr []))) = Some 0 \<and>
   map_option (stdout \<circ> snd) (main_namespaces [''repo''] None (sample_world (Inr [])))
     = Some [''Found 0 C# files to process...'', ''Done!'']"
  by code_simp

text \<open>
  C7, as amended. When the root is missing, is no directory or cannot be listed, both
  scripts find no file: the disk and standard error stay as they were, \<^verbatim>\<open>fix-ns.py\<close> prints
  \<^verbatim>\<open>Fixed 0 files\<close>, \<^verbatim>\<open>fix-namespaces.py\<close> prints its preamble with the count 0 and
  \<^verbatim>\<open>Done!\<close>, and the status is 0.
\<close>

theorem unavailable_root_no_files:
  assumes "unavailable root"
  shows "main_ns root w = Some (0, w\<lparr>stdout := stdout w @ [''Fixed 0 files'']\<rparr>) \<and>
    main_namespaces script_dir root w
      = Some (0, w\<lparr>stdout := stdout w @ [''Found 0 C# files to process...'', ''Done!'']\<rparr>)"
  using assms
  by (simp add: main_ns_def main_namespaces_def walk_unavailable rglob_unavailable
      print_out_def str_nat_0)

theorem unavailable_root_no_files_witness:
  "unavailable (Some (Dir False [(''a.cs'', File)])) \<and>
   main_ns (Some (Dir False [(''a.cs'', File)])) (sample_world (Inr old1))
     = Some (0, (sample_world (Inr old1))
          \<lparr>stdout := stdout (sample_world (Inr old1)) @ [''Fixed 0 files'']\<rparr>) \<and>
   main_namespaces [''repo''] (Some (Dir False [(''a.cs'', File)])) (sample_world (Inr old1))
     = Some (0, (sample_world (Inr old1))
          \<lparr>stdout := stdout (sample_world (Inr old1)) @
             [''Found 0 C# files to process...'', ''Done!'']\<rparr>)"
  using unavailable_root_no_files[of "Some (Dir False [(''a.cs'', File)])"
      "sample_world (Inr old1)" "[''repo'']"]
  by simp

text \<open>
  C8. With one file, which is changed, the standard output of \<^verbatim>\<open>fix-ns.py\<close> is the single
  line \<^verbatim>\<open>Fixed 1 files\<close>, with no preamble and no line for the file, and the last line of
  \<^verbatim>\<open>fix-namespaces.py\<close> is \<^verbatim>\<open>Done!\<close>, with no count.
\<close>

theorem transcripts_of_one_changed_file:
  "map_option (stdout \<circ> snd) (main_ns sample_root (sample_world (Inr old1)))
     = Some [''Fixed 1 files''] \<and>
   map_option (stdout \<circ> snd) (main_namespaces [''repo''] sample_root (sample_world (Inr old1)))
     = Some [''Found 1 C# files to process...'', ''Fixed: a.cs'', ''Done!'']"
  by code_simp

text \<open>
  C8, as amended. Over a well-formed tree \<^verbatim>\<open>fix-ns.py\<close> adds one line to standard output,
  \<^verbatim>\<open>Fixed N files\<close> with \<open>N\<close> the number of files changed. When no entry found fails,
  \<^verbatim>\<open>fix-namespaces.py\<close> adds the preamble with the number of entries found, then in the order
  of discovery one \<^verbatim>\<open>Fixed:\<close> line for each file changed, then \<^verbatim>\<open>Done!\<close>.
\<close>

theorem stdout_transcripts:
  "(wf_root cwd \<longrightarrow>
      (\<exists>w'. main_ns cwd w = Some (0, w') \<and>
         stdout w' = stdout w @
           [''Fixed '' @ str_nat (length (filter (\<lambda>p. is_changed (outcome w p))
                                     (cs_paths (walk ''.'' cwd)))) @ '' files''])) \<and>
   (wf_root root \<and> (\<forall>f\<in>set (rglob script_dir root). \<not> is_failed (outcome w (str_path f))) \<longrightarrow>
      (\<exists>w'. main_namespaces script_dir root w = Some (0, w') \<and>
         stdout w' = stdout w @
           [''Found '' @ str_nat (length (rglob script_dir root)) @ '' C# files to process...''] @
           map (\<lambda>f. ''Fixed: '' @ str_path (drop (length script_dir) f))
             (filter (\<lambda>f. is_changed (outcome w (str_path f))) (rglob script_dir root)) @
           [''Done!'']))"
proof (intro conjI impI)
  assume "wf_root cwd"
  from main_ns_distinct[OF walk_distinct[OF this], of w]
  show "\<exists>w'. main_ns cwd w = Some (0, w') \<and>
         stdout w' = stdout w @
           [''Fixed '' @ str_nat (length (filter (\<lambda>p. is_changed (outcome w p))
                                     (cs_paths (walk ''.'' cwd)))) @ '' files'']"
    by simp
next
  assume a: "wf_root root \<and>
    (\<forall>f\<in>set (rglob script_dir root). \<not> is_failed (outcome w (str_path f)))"
  then have lines: "concat (map (report_lines script_dir w) (rglob script_dir root))
     = map (\<lambda>f. ''Fixed: '' @ str_path (drop (length script_dir) f))
         (filter (\<lambda>f. is_changed (outcome w (str_path f))) (rglob script_dir root))"
    by (intro report_lines_without_failure) simp
  from a have "wf_root root" ..
  from main_namespaces_distinct[of script_dir root w, OF rglob_distinct[OF this]]
  show "\<exists>w'. main_namespaces script_dir root w = Some (0, w') \<and>
         stdout w' = stdout w @
           [''Found '' @ str_nat (length (rglob script_dir root)) @ '' C# files to process...''] @
           map (\<lambda>f. ''Fixed: '' @ str_path (drop (length script_dir) f))
             (filter (\<lambda>f. is_changed (outcome w (str_path f))) (rglob script_dir root)) @
           [''Done!'']"
    unfolding lines by simp
qed

theorem stdout_transcripts_witness:
  "wf_root sample_root \<and>
   rglob [''repo''] sample_root = [[''repo'', ''a.cs'']] \<and>
   \<not> is_failed (outcome (sample_world (Inr old1)) (str_path [''repo'', ''a.cs''])) \<and>
   (\<exists>w'. main_ns sample_root (sample_world (Inr old1)) = Some (0, w') \<and>
      stdout w' = [''Fixed 1 files'']) \<and>
   (\<exists>w'. main_namespaces [''repo''] sample_root (sample_world (Inr old1)) = Some (0, w') \<and>
      stdout w' = [''Found 1 C# files to process...'', ''Fixed: a.cs'', ''Done!''])"
proof -
  let ?w = "sample_world (Inr old1)"
  have h1: "wf_root sample_root" by code_simp
  have h2: "rglob [''repo''] sample_root = [[''repo'', ''a.cs'']]" by code_simp
  have h3: "\<not> is_failed (outcome ?w (str_path [''repo'', ''a.cs'']))" by code_simp
  from h2 h3 have h4: "\<forall>f\<in>set (rglob [''repo''] sample_root).
      \<not> is_failed (outcome ?w (str_path f))" by simp
  have e1: "stdout ?w @
           [''Fixed '' @ str_nat (length (filter (\<lambda>p. is_changed (outcome ?w p))
                                     (cs_paths (walk ''.'' sample_root)))) @ '' files'']
     = [''Fixed 1 files'']" by code_simp
  have e2: "stdout ?w @
           [''Found '' @ str_nat (length (rglob [''repo''] sample_root)) @ '' C# files to process...''] @
           map (\<lambda>f. ''Fixed: '' @ str_path (drop (length [''repo'']) f))
             (filter (\<lambda>f. is_changed (outcome ?w (str_path f))) (rglob [''repo''] sample_root)) @
           [''Done!'']
     = [''Found 1 C# files to process...'', ''Fixed: a.cs'', ''Done!'']" by code_simp
  from stdout_transcripts[where cwd = sample_root and w = "?w" and script_dir = "[''repo'']"
      and root = sample_root] h1 h4
  have "(\<exists>w'. main_ns sample_root ?w = Some (0, w') \<and> stdout w' = [''Fixed 1 files'']) \<and>
   (\<exists>w'. main_namespaces [''repo''] sample_root ?w = Some (0, w') \<and>
      stdout w' = [''Found 1 C# files to process...'', ''Fixed: a.cs'', ''Done!''])"
    unfolding e1 e2 by blast
  with h1 h2 h3 show ?thesis by blast
qed

end
